theory Spec2Isabelle
  imports Main
begin

section \<open>Data model of chess.js\<close>

text \<open>
  The source stores a piece as a one-letter string: an upper-case letter is a white piece,
  a lower-case letter a black one, and the letter (\<open>p r n b q k\<close>) is the kind. The twelve
  letters are exactly the pairs of a colour and a kind, so a piece is modelled as such a
  pair: \<open>piece === piece.toUpperCase()\<close> is \<open>isUpper\<close>, \<open>piece === piece.toLowerCase()\<close>
  is \<open>isLower\<close>, \<open>piece.toLowerCase() === 'r'\<close> is \<open>pkind piece = Rook\<close>, and
  \<open>piece === 'K'\<close> is \<open>piece = Piece White King\<close>. An empty square (\<open>null\<close>) is \<open>None\<close>.
\<close>

datatype color = White | Black

datatype kind = Pawn | Rook | Knight | Bishop | Queen | King

datatype piece = Piece (pcolor: color) (pkind: kind)

definition isUpper :: "piece \<Rightarrow> bool" where
  "isUpper p = (pcolor p = White)"

definition isLower :: "piece \<Rightarrow> bool" where
  "isLower p = (pcolor p = Black)"

type_synonym board = "piece option list list"

text \<open>
  A move object \<open>{ row, col }\<close>, with the two extra properties \<open>isCastling\<close> and
  \<open>rookCol\<close> that only castling moves carry (absent properties read as \<open>undefined\<close>:
  \<open>False\<close> and \<open>None\<close> here).
\<close>

record move =
  row :: int
  col :: int
  isCastling :: bool
  rookCol :: "int option"

record moved =
  whiteKing :: bool
  blackKing :: bool
  whiteRookLeft :: bool
  whiteRookRight :: bool
  blackRookLeft :: bool
  blackRookRight :: bool

text \<open>
  The fields of \<open>ChessGame\<close>. \<open>capturedPieces.white\<close> and \<open>capturedPieces.black\<close> are
  the two fields \<open>capturedWhite\<close> and \<open>capturedBlack\<close>; \<open>gameStatus\<close> is the text content
  of the page's \<open>game-status\<close> element, the only part of the page that the status
  evaluation writes (empty at the start, as \<open>resetGame\<close> leaves it). Rendering
  (\<open>initializeBoard\<close>, highlights, the turn indicator) has no effect on these fields and
  is left out.
\<close>

record game =
  board :: board
  currentTurn :: color
  selectedSquare :: "(int \<times> int) option"
  validMoves :: "move list"
  capturedWhite :: "piece list"
  capturedBlack :: "piece list"
  gameOver :: bool
  hasMoved :: moved
  gameStatus :: string

definition INITIAL_BOARD :: board where
  "INITIAL_BOARD =
    [ map (\<lambda>k. Some (Piece Black k)) [Rook, Knight, Bishop, Queen, King, Bishop, Knight, Rook],
      replicate 8 (Some (Piece Black Pawn)),
      replicate 8 None,
      replicate 8 None,
      replicate 8 None,
      replicate 8 None,
      replicate 8 (Some (Piece White Pawn)),
      map (\<lambda>k. Some (Piece White k)) [Rook, Knight, Bishop, Queen, King, Bishop, Knight, Rook] ]"

definition newGame :: game where
  "newGame =
    \<lparr> board = INITIAL_BOARD, currentTurn = White, selectedSquare = None, validMoves = [],
      capturedWhite = [], capturedBlack = [], gameOver = False,
      hasMoved = \<lparr> whiteKing = False, blackKing = False, whiteRookLeft = False,
                   whiteRookRight = False, blackRookLeft = False, blackRookRight = False \<rparr>,
      gameStatus = [] \<rparr>"

section \<open>Board access\<close>

definition isInBounds :: "int \<Rightarrow> int \<Rightarrow> bool" where
  "isInBounds r c = (r \<ge> 0 \<and> r < 8 \<and> c \<ge> 0 \<and> c < 8)"

text \<open>
  \<open>this.board[r][c]\<close>. Every read and write of the source is either guarded by
  \<open>isInBounds\<close>, inside a loop over \<open>0..7\<close>, or at a square handed in by the caller (a
  clicked square, or a generated move); the model reads an empty square and writes nothing
  outside the board, and the theorems below assume the caller's square in bounds.
\<close>

definition boardAt :: "board \<Rightarrow> int \<Rightarrow> int \<Rightarrow> piece option" where
  "boardAt b r c = (if isInBounds r c then b ! nat r ! nat c else None)"

definition setAt :: "board \<Rightarrow> int \<Rightarrow> int \<Rightarrow> piece option \<Rightarrow> board" where
  "setAt b r c v = (if isInBounds r c then b[nat r := (b ! nat r)[nat c := v]] else b)"

text \<open>The squares in the order of the nested loops \<open>for row 0..7 { for col 0..7 }\<close>.\<close>

definition allSquares :: "(int \<times> int) list" where
  "allSquares = concat (map (\<lambda>r. map (\<lambda>c. (r, c)) [0..7]) [0..7])"

definition isOpponentPiece :: "board \<Rightarrow> int \<Rightarrow> int \<Rightarrow> bool \<Rightarrow> bool" where
  "isOpponentPiece b r c isWhite =
    (case boardAt b r c of
       None \<Rightarrow> False
     | Some piece \<Rightarrow> if isWhite then isLower piece else isUpper piece)"

definition isPieceOwnedByCurrentPlayer :: "game \<Rightarrow> int \<Rightarrow> int \<Rightarrow> bool" where
  "isPieceOwnedByCurrentPlayer g r c =
    (case boardAt (board g) r c of
       None \<Rightarrow> False
     | Some piece \<Rightarrow> (currentTurn g = White \<and> isUpper piece) \<or>
                     (currentTurn g = Black \<and> isLower piece))"

section \<open>Move generation\<close>

definition mv :: "int \<Rightarrow> int \<Rightarrow> move" where
  "mv r c = \<lparr> row = r, col = c, isCastling = False, rookCol = None \<rparr>"

text \<open>
  The generators read the colour of the piece on their own square without a null test;
  they are only called behind the test \<open>if (!piece) return []\<close> of the two dispatchers, so
  the \<open>None\<close> branch below is never taken.
\<close>

definition getPawnMoves :: "board \<Rightarrow> int \<Rightarrow> int \<Rightarrow> move list" where
  "getPawnMoves b r c =
    (case boardAt b r c of
       None \<Rightarrow> []
     | Some piece \<Rightarrow>
        let isWhite = isUpper piece;
            direction = (if isWhite then - 1 else 1);
            startRow = (if isWhite then 6 else 1)
        in (if isInBounds (r + direction) c \<and> boardAt b (r + direction) c = None
            then mv (r + direction) c #
                 (if r = startRow \<and> boardAt b (r + 2 * direction) c = None
                  then [mv (r + 2 * direction) c] else [])
            else []) @
           concat (map (\<lambda>colOffset.
              let newRow = r + direction; newCol = c + colOffset
              in if isInBounds newRow newCol \<and> boardAt b newRow newCol \<noteq> None \<and>
                    isOpponentPiece b newRow newCol isWhite
                 then [mv newRow newCol] else []) [- 1, 1]))"

text \<open>
  The \<open>while\<close> loop of \<open>getLinearMoves\<close> for one direction, from the first square looked
  at. The source only walks the eight unit directions; the zero direction, on which the
  loop would not advance, is cut off here.
\<close>

function walkRay :: "board \<Rightarrow> bool \<Rightarrow> int \<Rightarrow> int \<Rightarrow> int \<Rightarrow> int \<Rightarrow> move list" where
  "walkRay b isWhite newRow newCol rowDir colDir =
    (if isInBounds newRow newCol \<and> (rowDir \<noteq> 0 \<or> colDir \<noteq> 0) then
       (if boardAt b newRow newCol = None
        then mv newRow newCol # walkRay b isWhite (newRow + rowDir) (newCol + colDir) rowDir colDir
        else (if isOpponentPiece b newRow newCol isWhite then [mv newRow newCol] else []))
     else [])"
  by pat_completeness auto
termination
  by (relation "measure (\<lambda>(b, w, r, c, dr, dc).
        if dr > 0 then nat (8 - r) else if dr < 0 then nat (r + 1)
        else if dc > 0 then nat (8 - c) else nat (c + 1))")
     (auto simp: isInBounds_def)

declare walkRay.simps [simp del]

definition getLinearMoves :: "board \<Rightarrow> int \<Rightarrow> int \<Rightarrow> (int \<times> int) list \<Rightarrow> move list" where
  "getLinearMoves b r c directions =
    (case boardAt b r c of
       None \<Rightarrow> []
     | Some piece \<Rightarrow>
        concat (map (\<lambda>(rowDir, colDir).
          walkRay b (isUpper piece) (r + rowDir) (c + colDir) rowDir colDir) directions))"

definition getRookMoves :: "board \<Rightarrow> int \<Rightarrow> int \<Rightarrow> move list" where
  "getRookMoves b r c = getLinearMoves b r c [(- 1, 0), (1, 0), (0, - 1), (0, 1)]"

definition getBishopMoves :: "board \<Rightarrow> int \<Rightarrow> int \<Rightarrow> move list" where
  "getBishopMoves b r c = getLinearMoves b r c [(- 1, - 1), (- 1, 1), (1, - 1), (1, 1)]"

definition getQueenMoves :: "board \<Rightarrow> int \<Rightarrow> int \<Rightarrow> move list" where
  "getQueenMoves b r c = getLinearMoves b r c
     [(- 1, 0), (1, 0), (0, - 1), (0, 1), (- 1, - 1), (- 1, 1), (1, - 1), (1, 1)]"

text \<open>
  The \<open>offsets.forEach\<close> loop that \<open>getKnightMoves\<close>, \<open>getKingMoves\<close> and
  \<open>getBasicKingMoves\<close> each spell out with the same body.
\<close>

definition offsetMoves :: "board \<Rightarrow> int \<Rightarrow> int \<Rightarrow> (int \<times> int) list \<Rightarrow> move list" where
  "offsetMoves b r c offsets =
    (case boardAt b r c of
       None \<Rightarrow> []
     | Some piece \<Rightarrow>
        concat (map (\<lambda>(rowOffset, colOffset).
          let newRow = r + rowOffset; newCol = c + colOffset
          in if isInBounds newRow newCol \<and>
                (boardAt b newRow newCol = None \<or> isOpponentPiece b newRow newCol (isUpper piece))
             then [mv newRow newCol] else []) offsets))"

definition getKnightMoves :: "board \<Rightarrow> int \<Rightarrow> int \<Rightarrow> move list" where
  "getKnightMoves b r c = offsetMoves b r c
     [(- 2, - 1), (- 2, 1), (- 1, - 2), (- 1, 2), (1, - 2), (1, 2), (2, - 1), (2, 1)]"

definition getBasicKingMoves :: "board \<Rightarrow> int \<Rightarrow> int \<Rightarrow> move list" where
  "getBasicKingMoves b r c = offsetMoves b r c
     [(- 1, - 1), (- 1, 0), (- 1, 1), (0, - 1), (0, 1), (1, - 1), (1, 0), (1, 1)]"

definition getValidMovesWithoutCheckValidation :: "board \<Rightarrow> int \<Rightarrow> int \<Rightarrow> move list" where
  "getValidMovesWithoutCheckValidation b r c =
    (case boardAt b r c of
       None \<Rightarrow> []
     | Some piece \<Rightarrow>
        (case pkind piece of
           Pawn \<Rightarrow> getPawnMoves b r c
         | Rook \<Rightarrow> getRookMoves b r c
         | Knight \<Rightarrow> getKnightMoves b r c
         | Bishop \<Rightarrow> getBishopMoves b r c
         | Queen \<Rightarrow> getQueenMoves b r c
         | King \<Rightarrow> getBasicKingMoves b r c))"

section \<open>Check analysis\<close>

text \<open>The test \<open>moves.some(move => move.row === row && move.col === col)\<close>.\<close>

definition reaches :: "move list \<Rightarrow> int \<Rightarrow> int \<Rightarrow> bool" where
  "reaches moves r c = list_ex (\<lambda>m. row m = r \<and> col m = c) moves"

text \<open>
  The attacker scan shared by \<open>isSquareUnderAttack\<close> and the second half of
  \<open>isKingInCheck\<close>: some piece of the other colour has the square among its moves.
\<close>

definition isSquareUnderAttack :: "board \<Rightarrow> int \<Rightarrow> int \<Rightarrow> bool \<Rightarrow> bool" where
  "isSquareUnderAttack b r c isWhite =
    list_ex (\<lambda>(r', c').
      (case boardAt b r' c' of
         None \<Rightarrow> False
       | Some piece \<Rightarrow>
           ((isWhite \<and> isLower piece) \<or> (\<not> isWhite \<and> isUpper piece)) \<and>
           reaches (getValidMovesWithoutCheckValidation b r' c') r c)) allSquares"

text \<open>The first loop of \<open>isKingInCheck\<close>: the first king of the colour in scan order.\<close>

definition findKing :: "board \<Rightarrow> bool \<Rightarrow> (int \<times> int) option" where
  "findKing b isWhite =
    find (\<lambda>(r, c).
      (case boardAt b r c of
         None \<Rightarrow> False
       | Some piece \<Rightarrow> pkind piece = King \<and>
           ((isWhite \<and> piece = Piece White King) \<or> (\<not> isWhite \<and> piece = Piece Black King))))
      allSquares"

definition isKingInCheck :: "board \<Rightarrow> bool \<Rightarrow> bool" where
  "isKingInCheck b isWhite =
    (case findKing b isWhite of
       None \<Rightarrow> False
     | Some (kr, kc) \<Rightarrow>
        list_ex (\<lambda>(r, c).
          (case boardAt b r c of
             None \<Rightarrow> False
           | Some piece \<Rightarrow>
               ((isWhite \<and> isLower piece) \<or> (\<not> isWhite \<and> isUpper piece)) \<and>
               reaches (getValidMovesWithoutCheckValidation b r c) kr kc)) allSquares)"

text \<open>
  \<open>wouldBeInCheck\<close> writes the move into \<open>this.board\<close>, asks \<open>isKingInCheck\<close> and writes
  the two squares back; the model asks on the updated copy.
\<close>

definition wouldBeInCheck :: "board \<Rightarrow> int \<Rightarrow> int \<Rightarrow> int \<Rightarrow> int \<Rightarrow> bool" where
  "wouldBeInCheck b fromRow fromCol toRow toCol =
    (case boardAt b fromRow fromCol of
       None \<Rightarrow> False
     | Some piece \<Rightarrow>
        isKingInCheck (setAt (setAt b toRow toCol (Some piece)) fromRow fromCol None)
          (isUpper piece))"

section \<open>Castling and the legal-move query\<close>

definition getCastlingMoves :: "game \<Rightarrow> int \<Rightarrow> int \<Rightarrow> bool \<Rightarrow> move list" where
  "getCastlingMoves g r c isWhite =
    (if isKingInCheck (board g) isWhite then []
     else if (if isWhite then whiteKing (hasMoved g) else blackKing (hasMoved g)) then []
     else
       let b = board g;
           baseRow = (if isWhite then 7 else 0);
           kingsideRookMoved =
             (if isWhite then whiteRookRight (hasMoved g) else blackRookRight (hasMoved g));
           queensideRookMoved =
             (if isWhite then whiteRookLeft (hasMoved g) else blackRookLeft (hasMoved g))
       in (if \<not> kingsideRookMoved \<and>
              boardAt b baseRow 5 = None \<and>
              boardAt b baseRow 6 = None \<and>
              (case boardAt b baseRow 7 of None \<Rightarrow> False | Some p \<Rightarrow> pkind p = Rook) \<and>
              \<not> isSquareUnderAttack b baseRow 5 isWhite \<and>
              \<not> isSquareUnderAttack b baseRow 6 isWhite
           then [\<lparr> row = baseRow, col = 6, isCastling = True, rookCol = Some 7 \<rparr>] else []) @
          (if \<not> queensideRookMoved \<and>
              boardAt b baseRow 1 = None \<and>
              boardAt b baseRow 2 = None \<and>
              boardAt b baseRow 3 = None \<and>
              (case boardAt b baseRow 0 of None \<Rightarrow> False | Some p \<Rightarrow> pkind p = Rook) \<and>
              \<not> isSquareUnderAttack b baseRow 2 isWhite \<and>
              \<not> isSquareUnderAttack b baseRow 3 isWhite
           then [\<lparr> row = baseRow, col = 2, isCastling = True, rookCol = Some 0 \<rparr>] else []))"

definition getKingMoves :: "game \<Rightarrow> int \<Rightarrow> int \<Rightarrow> move list" where
  "getKingMoves g r c =
    (case boardAt (board g) r c of
       None \<Rightarrow> []
     | Some piece \<Rightarrow>
        offsetMoves (board g) r c
          [(- 1, - 1), (- 1, 0), (- 1, 1), (0, - 1), (0, 1), (1, - 1), (1, 0), (1, 1)] @
        getCastlingMoves g r c (isUpper piece))"

definition getValidMoves :: "game \<Rightarrow> int \<Rightarrow> int \<Rightarrow> move list" where
  "getValidMoves g r c =
    (case boardAt (board g) r c of
       None \<Rightarrow> []
     | Some piece \<Rightarrow>
        let moves =
          (case pkind piece of
             Pawn \<Rightarrow> getPawnMoves (board g) r c
           | Rook \<Rightarrow> getRookMoves (board g) r c
           | Knight \<Rightarrow> getKnightMoves (board g) r c
           | Bishop \<Rightarrow> getBishopMoves (board g) r c
           | Queen \<Rightarrow> getQueenMoves (board g) r c
           | King \<Rightarrow> getKingMoves g r c)
        in filter (\<lambda>m. \<not> wouldBeInCheck (board g) r c (row m) (col m)) moves)"

section \<open>Applying a move\<close>

text \<open>
  \<open>movePiece\<close>. In the castling branch the rook is read after the king has been written;
  a castling move without a \<open>rookCol\<close> would read \<open>undefined\<close> there, an empty square for
  every later test. The source calls \<open>movePiece\<close> on the selected square only, which
  holds a piece; on an empty square it would fail at \<open>piece.toUpperCase()\<close> before any
  write, and the model leaves the game as it is.
\<close>

definition movePiece :: "game \<Rightarrow> int \<Rightarrow> int \<Rightarrow> int \<Rightarrow> int \<Rightarrow> move \<Rightarrow> game" where
  "movePiece g fromRow fromCol toRow toCol m =
    (case boardAt (board g) fromRow fromCol of
       None \<Rightarrow> g
     | Some piece \<Rightarrow>
        let capturedPiece = boardAt (board g) toRow toCol;
            isWhite = isUpper piece;
            g1 =
              (if isCastling m then
                 let b1 = setAt (setAt (board g) toRow toCol (Some piece)) fromRow fromCol None;
                     rookToCol = (if toCol = 6 then 5 else 3)
                 in (case rookCol m of
                       None \<Rightarrow> g\<lparr> board := setAt b1 toRow rookToCol None \<rparr>
                     | Some rookFromCol \<Rightarrow>
                         let rook = boardAt b1 toRow rookFromCol
                         in g\<lparr> board := setAt (setAt b1 toRow rookToCol rook) toRow rookFromCol None \<rparr>)
               else
                 let g0 =
                       (case capturedPiece of
                          None \<Rightarrow> g
                        | Some cp \<Rightarrow>
                            if isUpper cp then g\<lparr> capturedWhite := capturedWhite g @ [cp] \<rparr>
                            else g\<lparr> capturedBlack := capturedBlack g @ [cp] \<rparr>);
                     b1 = setAt (setAt (board g) toRow toCol (Some piece)) fromRow fromCol None;
                     b2 =
                       (if pkind piece = Pawn then
                          (if (piece = Piece White Pawn \<and> toRow = 0) \<or>
                              (piece = Piece Black Pawn \<and> toRow = 7)
                           then setAt b1 toRow toCol
                                  (Some (if piece = Piece White Pawn then Piece White Queen
                                         else Piece Black Queen))
                           else b1)
                        else b1)
                 in g0\<lparr> board := b2 \<rparr>);
            h = hasMoved g1;
            h' =
              (if pkind piece = King then
                 (if isWhite then h\<lparr> whiteKing := True \<rparr> else h\<lparr> blackKing := True \<rparr>)
               else if pkind piece = Rook then
                 (if isWhite then
                    (let h1 = (if fromCol = 0 then h\<lparr> whiteRookLeft := True \<rparr> else h)
                     in (if fromCol = 7 then h1\<lparr> whiteRookRight := True \<rparr> else h1))
                  else
                    (let h1 = (if fromCol = 0 then h\<lparr> blackRookLeft := True \<rparr> else h)
                     in (if fromCol = 7 then h1\<lparr> blackRookRight := True \<rparr> else h1)))
               else h)
        in g1\<lparr> hasMoved := h' \<rparr>)"

section \<open>Status evaluation and the click handler\<close>

definition hasAnyValidMoves :: "game \<Rightarrow> bool" where
  "hasAnyValidMoves g =
    list_ex (\<lambda>(r, c). isPieceOwnedByCurrentPlayer g r c \<and> getValidMoves g r c \<noteq> []) allSquares"

definition endGame :: "game \<Rightarrow> string \<Rightarrow> game" where
  "endGame g message = g\<lparr> gameOver := True, gameStatus := message \<rparr>"

definition checkGameStatus :: "game \<Rightarrow> game" where
  "checkGameStatus g =
    (let hasValidMoves = hasAnyValidMoves g;
         inCheck = isKingInCheck (board g) (currentTurn g = White)
     in if \<not> hasValidMoves then
          (if inCheck then
             endGame g (''Checkmate! '' @ (if currentTurn g = White then ''Black'' else ''White'')
                        @ '' wins!'')
           else endGame g ''Stalemate! Game is a draw.'')
        else if inCheck then g\<lparr> gameStatus := ''Check!'' \<rparr>
        else g\<lparr> gameStatus := [] \<rparr>)"

definition switchTurn :: "game \<Rightarrow> game" where
  "switchTurn g =
    checkGameStatus (g\<lparr> currentTurn := (if currentTurn g = White then Black else White) \<rparr>)"

definition selectSquare :: "game \<Rightarrow> int \<Rightarrow> int \<Rightarrow> game" where
  "selectSquare g r c = g\<lparr> selectedSquare := Some (r, c), validMoves := getValidMoves g r c \<rparr>"

definition clearSelection :: "game \<Rightarrow> game" where
  "clearSelection g = g\<lparr> selectedSquare := None, validMoves := [] \<rparr>"

definition handleSquareClick :: "game \<Rightarrow> int \<Rightarrow> int \<Rightarrow> game" where
  "handleSquareClick g r c =
    (if gameOver g then g
     else
       (case selectedSquare g of
          Some (selRow, selCol) \<Rightarrow>
            (case find (\<lambda>m. row m = r \<and> col m = c) (validMoves g) of
               Some m \<Rightarrow> switchTurn (clearSelection (movePiece g selRow selCol r c m))
             | None \<Rightarrow>
                 if isPieceOwnedByCurrentPlayer g r c then selectSquare g r c
                 else clearSelection g)
        | None \<Rightarrow>
            if isPieceOwnedByCurrentPlayer g r c then selectSquare g r c else g))"

text \<open>
  The states of a game: the constructor's state, and whatever a click on one of the 64
  squares makes of a state of a game.
\<close>

inductive reachable :: "game \<Rightarrow> bool" where
  start: "reachable newGame"
| click: "reachable g \<Longrightarrow> isInBounds r c \<Longrightarrow> reachable (handleSquareClick g r c)"

section \<open>Well-formed boards and scripted games\<close>

text \<open>A board is eight rows of eight squares, as \<open>INITIAL_BOARD\<close> is.\<close>

definition wf_board :: "board \<Rightarrow> bool" where
  "wf_board b = (length b = 8 \<and> list_all (\<lambda>rw. length rw = 8) b)"

text \<open>A scripted game: the clicks of a list, one after the other.\<close>

fun clicks :: "game \<Rightarrow> (int \<times> int) list \<Rightarrow> game" where
  "clicks g [] = g"
| "clicks g ((r, c) # rest) = clicks (handleSquareClick g r c) rest"

text \<open>
  Positions for the examples are set up from the initial one by \<open>movePiece\<close> alone, which
  asks no question about the move it is given.
\<close>

fun applyMoves :: "game \<Rightarrow> (int \<times> int \<times> int \<times> int) list \<Rightarrow> game" where
  "applyMoves g [] = g"
| "applyMoves g ((fromRow, fromCol, toRow, toCol) # rest) =
     applyMoves (movePiece g fromRow fromCol toRow toCol (mv toRow toCol)) rest"

text \<open>After 1. e4 d5: the white pawn on (4, 4) can take the black pawn on (3, 3).\<close>

definition capturePosition :: game where
  "capturePosition = applyMoves newGame [(6, 4, 4, 4), (1, 3, 3, 3)]"

text \<open>A white pawn has reached (1, 0) and can take the knight on (0, 1).\<close>

definition promotionPosition :: game where
  "promotionPosition = applyMoves newGame
     [(6, 0, 4, 0), (1, 1, 3, 1), (4, 0, 3, 1), (1, 7, 2, 7), (3, 1, 2, 1), (2, 7, 3, 7),
      (2, 1, 1, 0), (3, 7, 4, 7)]"

text \<open>
  The fool's mate 1. f3 e5 2. g4 Qh4, as the board stands between \<open>movePiece\<close> and
  \<open>switchTurn\<close> of Black's second move.
\<close>

definition matePosition :: game where
  "matePosition = (applyMoves newGame [(6, 5, 5, 5), (1, 4, 3, 4), (6, 6, 4, 6), (0, 3, 4, 7)])
     \<lparr> currentTurn := Black \<rparr>"

text \<open>After 1. e4 e5 2. Nf3 Nf6 3. Bc4 Bc5: White may castle kingside.\<close>

definition castlePosition :: game where
  "castlePosition = applyMoves newGame
     [(6, 4, 4, 4), (1, 4, 3, 4), (7, 6, 5, 5), (0, 6, 2, 5), (7, 5, 4, 2), (0, 5, 3, 2)]"

definition castleKingside :: "int \<Rightarrow> move" where
  "castleKingside baseRow = \<lparr> row = baseRow, col = 6, isCastling = True, rookCol = Some 7 \<rparr>"

text \<open>
  The game 1. e4 d5 2. Bc4 dxe4 3. Nf3 e3 4. a3 e2 as sixteen clicks, and the position it
  ends in: a black pawn stands on (6, 4), in front of the white king.
\<close>

definition pawnGame :: "(int \<times> int) list" where
  "pawnGame = [(6, 4), (4, 4), (1, 3), (3, 3), (7, 5), (4, 2), (3, 3), (4, 4),
               (7, 6), (5, 5), (4, 4), (5, 4), (6, 0), (5, 0), (5, 4), (6, 4)]"

definition pawnPosition :: game where
  "pawnPosition = applyMoves newGame
     [(6, 4, 4, 4), (1, 3, 3, 3), (7, 5, 4, 2), (3, 3, 4, 4), (7, 6, 5, 5), (4, 4, 5, 4),
      (6, 0, 5, 0), (5, 4, 6, 4)]"

text \<open>
  Every legal move of the side to move, with the square it starts from, collected by the
  loop of \<open>hasAnyValidMoves\<close>; and the kind of the piece that makes it.
\<close>

definition allLegalMoves :: "game \<Rightarrow> ((int \<times> int) \<times> move) list" where
  "allLegalMoves g =
    concat (map (\<lambda>(r, c).
      if isPieceOwnedByCurrentPlayer g r c then map (Pair (r, c)) (getValidMoves g r c) else [])
      allSquares)"

definition moverKind :: "game \<Rightarrow> (int \<times> int) \<times> move \<Rightarrow> kind option" where
  "moverKind g fm = map_option pkind (boardAt (board g) (fst (fst fm)) (snd (fst fm)))"

text \<open>
  Notions for the proofs. \<open>rayHit\<close> says that the \<open>k\<close>-th square of a ray is reached: it
  is on the board, every square before it is on the board and empty, and it is empty or
  holds a piece of the other colour. \<open>unitDirs\<close> are the directions \<open>getLinearMoves\<close> is
  called with, and \<open>kingOf\<close> is the letter \<open>isKingInCheck\<close> looks for.
\<close>

definition rayHit :: "board \<Rightarrow> bool \<Rightarrow> int \<Rightarrow> int \<Rightarrow> int \<Rightarrow> int \<Rightarrow> nat \<Rightarrow> bool" where
  "rayHit b w r c dr dc k \<longleftrightarrow>
     isInBounds (r + int k * dr) (c + int k * dc) \<and>
     (\<forall>j<k. isInBounds (r + int j * dr) (c + int j * dc) \<and>
            boardAt b (r + int j * dr) (c + int j * dc) = None) \<and>
     (boardAt b (r + int k * dr) (c + int k * dc) = None \<or>
      isOpponentPiece b (r + int k * dr) (c + int k * dc) w)"

definition unitDirs :: "(int \<times> int) list \<Rightarrow> bool" where
  "unitDirs ds \<longleftrightarrow>
     list_all (\<lambda>(dr, dc). dr \<in> {- 1, 0, 1} \<and> dc \<in> {- 1, 0, 1} \<and> (dr \<noteq> 0 \<or> dc \<noteq> 0)) ds"

definition kingOf :: "bool \<Rightarrow> piece" where
  "kingOf isWhite = Piece (if isWhite then White else Black) King"

text \<open>
  The squares that hold the king of a colour, in scan order; \<open>oneKing\<close> says that there
  is exactly one. \<open>gameInv\<close> is what every state of a game satisfies: the board is eight
  by eight, each colour has one king, the side that has just moved is not in check, and a
  selected square is a square of the side to move whose legal moves are in \<open>validMoves\<close>.
\<close>

definition kingSquares :: "board \<Rightarrow> bool \<Rightarrow> (int \<times> int) list" where
  "kingSquares b isWhite = filter (\<lambda>(r, c). boardAt b r c = Some (kingOf isWhite)) allSquares"

definition oneKing :: "board \<Rightarrow> bool \<Rightarrow> bool" where
  "oneKing b isWhite \<longleftrightarrow>
     (\<exists>kr kc. isInBounds kr kc \<and>
        (\<forall>r c. isInBounds r c \<longrightarrow> (boardAt b r c = Some (kingOf isWhite)) = (r = kr \<and> c = kc)))"

definition gameInv :: "game \<Rightarrow> bool" where
  "gameInv g \<longleftrightarrow>
     wf_board (board g) \<and> oneKing (board g) True \<and> oneKing (board g) False \<and>
     \<not> isKingInCheck (board g) (currentTurn g \<noteq> White) \<and>
     (case selectedSquare g of
        None \<Rightarrow> True
      | Some (sr, sc) \<Rightarrow> isInBounds sr sc \<and> isPieceOwnedByCurrentPlayer g sr sc \<and>
          validMoves g = getValidMoves g sr sc)"

section \<open>Basic facts\<close>

lemma boardAt_setAt:
  "wf_board b \<Longrightarrow> isInBounds r c \<Longrightarrow>
   boardAt (setAt b r c v) r' c' = (if r' = r \<and> c' = c then v else boardAt b r' c')"
  by (auto simp: boardAt_def setAt_def wf_board_def isInBounds_def list_all_length
      nth_list_update nat_eq_iff)

lemma wf_setAt: "wf_board b \<Longrightarrow> wf_board (setAt b r c v)"
  by (auto simp: setAt_def wf_board_def list_all_length nth_list_update isInBounds_def)

lemma allSquares_iff: "(r, c) \<in> set allSquares \<longleftrightarrow> isInBounds r c"
  by (auto simp: allSquares_def isInBounds_def image_iff)

lemma distinct_allSquares: "distinct allSquares"
  by code_simp

lemma wf_INITIAL_BOARD: "wf_board INITIAL_BOARD"
  by code_simp

lemma getValidMoves_cong:
  assumes "board g = board g'" and "hasMoved g = hasMoved g'"
  shows "getValidMoves g r c = getValidMoves g' r c"
  unfolding getValidMoves_def getKingMoves_def getCastlingMoves_def assms
  by (rule refl)

lemma owned_cong:
  "board g = board g' \<Longrightarrow> currentTurn g = currentTurn g' \<Longrightarrow>
   isPieceOwnedByCurrentPlayer g r c = isPieceOwnedByCurrentPlayer g' r c"
  by (simp add: isPieceOwnedByCurrentPlayer_def cong: option.case_cong)

lemma hasAnyValidMoves_iff:
  "hasAnyValidMoves g \<longleftrightarrow>
   (\<exists>r c. isInBounds r c \<and> isPieceOwnedByCurrentPlayer g r c \<and> getValidMoves g r c \<noteq> [])"
  unfolding hasAnyValidMoves_def list_ex_iff
  by (auto simp: allSquares_iff) blast

lemma isLower_iff: "isLower p \<longleftrightarrow> \<not> isUpper p"
  by (cases p; cases "pcolor p"; simp add: isUpper_def isLower_def)

lemma piece_eqI:
  "isUpper p = isWhite \<Longrightarrow> pkind p = k \<Longrightarrow> p = Piece (if isWhite then White else Black) k"
  by (cases p; cases "pcolor p"; auto simp: isUpper_def)

lemma reaches_iff: "reaches ms r c \<longleftrightarrow> (\<exists>m\<in>set ms. row m = r \<and> col m = c)"
  by (simp add: reaches_def list_ex_iff)

lemma isSquareUnderAttack_iff:
  "isSquareUnderAttack b r c isWhite \<longleftrightarrow>
   (\<exists>r' c' p. isInBounds r' c' \<and> boardAt b r' c' = Some p \<and> isUpper p \<noteq> isWhite \<and>
      reaches (getValidMovesWithoutCheckValidation b r' c') r c)"
proof -
  have sq: "(case boardAt b r' c' of None \<Rightarrow> False
             | Some piece \<Rightarrow> ((isWhite \<and> isLower piece) \<or> (\<not> isWhite \<and> isUpper piece)) \<and>
                 reaches (getValidMovesWithoutCheckValidation b r' c') r c) \<longleftrightarrow>
            (\<exists>p. boardAt b r' c' = Some p \<and> isUpper p \<noteq> isWhite \<and>
                 reaches (getValidMovesWithoutCheckValidation b r' c') r c)" for r' c'
    by (cases "boardAt b r' c'") (auto simp: isLower_iff)
  show ?thesis
    unfolding isSquareUnderAttack_def list_ex_iff Bex_def split_paired_Ex
    by (simp add: allSquares_iff sq)
qed

lemma mem_getPawnMoves:
  "m \<in> set (getPawnMoves b r c) \<Longrightarrow>
   m = mv (row m) (col m) \<and> row m \<noteq> r \<and> (isInBounds r c \<longrightarrow> isInBounds (row m) (col m))"
  by (auto simp: getPawnMoves_def Let_def isInBounds_def mv_def split: option.splits if_splits)

lemma mem_getCastlingMoves:
  "m \<in> set (getCastlingMoves g r c isWhite) \<Longrightarrow>
   isCastling m \<and> row m = (if isWhite then 7 else 0) \<and>
   ((col m = 6 \<and> rookCol m = Some 7 \<and>
      \<not> (if isWhite then whiteRookRight (hasMoved g) else blackRookRight (hasMoved g))) \<or>
    (col m = 2 \<and> rookCol m = Some 0 \<and>
      \<not> (if isWhite then whiteRookLeft (hasMoved g) else blackRookLeft (hasMoved g))))"
  by (auto simp: getCastlingMoves_def Let_def split: if_splits)

section \<open>The legal-move query on empty and foreign squares\<close>

text \<open>
  Claim C3, as amended. \<open>getValidMoves\<close> returns no move for an unoccupied square. It
  does not look at the side to move: its callers do, through
  \<open>isPieceOwnedByCurrentPlayer\<close>, which is false on an unoccupied square and on a piece
  of the side not to move, and a click on such a square with nothing selected leaves the
  game as it is, with no move offered.
\<close>

theorem getValidMoves_empty_or_gated:
  "isInBounds r c \<Longrightarrow>
   (boardAt (board g) r c = None \<longrightarrow> getValidMoves g r c = []) \<and>
   ((boardAt (board g) r c = None \<or>
     (\<exists>p. boardAt (board g) r c = Some p \<and> pcolor p \<noteq> currentTurn g)) \<longrightarrow>
    \<not> isPieceOwnedByCurrentPlayer g r c \<and>
    (selectedSquare g = None \<longrightarrow> handleSquareClick g r c = g))"
  by (auto simp: getValidMoves_def isPieceOwnedByCurrentPlayer_def handleSquareClick_def
      isUpper_def isLower_def)

theorem getValidMoves_empty_or_gated_witness:
  "getValidMoves newGame 2 0 = [] \<and> \<not> isPieceOwnedByCurrentPlayer newGame 1 0 \<and>
   handleSquareClick newGame 1 0 = newGame"
proof -
  have a: "isInBounds 2 0" "isInBounds 1 0" by code_simp+
  have b: "boardAt (board newGame) 2 0 = None" by code_simp
  have c: "boardAt (board newGame) 1 0 = Some (Piece Black Pawn)" "currentTurn newGame = White"
    "selectedSquare newGame = None"
    by code_simp+
  from getValidMoves_empty_or_gated [OF a(1), of newGame] b
    getValidMoves_empty_or_gated [OF a(2), of newGame] c
  show ?thesis by auto
qed

text \<open>
  Claim C3 as stated fails: in the initial position, White to move, the query on the
  black pawn of square (1, 0) returns that pawn's two moves.
\<close>

theorem getValidMoves_other_side_counterexample:
  "isInBounds 1 0 \<and> boardAt (board newGame) 1 0 = Some (Piece Black Pawn) \<and>
   currentTurn newGame = White \<and> getValidMoves newGame 1 0 = [mv 2 0, mv 3 0]"
  by code_simp

section \<open>Status evaluation\<close>

text \<open>
  Claim C4. After \<open>switchTurn\<close> the status text is the checkmate message (naming the
  other side as the winner) exactly when the new side to move has no legal move on any of
  the 64 squares and its king is attacked, and the stalemate message exactly when it has no
  legal move and its king is not attacked; otherwise the text is \<open>Check!\<close> or empty,
  according to whether the king is attacked, and the game is over exactly when it was over
  before or no legal move is left.
\<close>

theorem checkGameStatus_classification:
  "let g' = switchTurn g;
       noMoves = (\<forall>r c. isInBounds r c \<longrightarrow> isPieceOwnedByCurrentPlayer g' r c \<longrightarrow>
                    getValidMoves g' r c = []);
       inCheck = isKingInCheck (board g') (currentTurn g' = White)
   in (gameStatus g' =
         ''Checkmate! '' @ (if currentTurn g' = White then ''Black'' else ''White'') @ '' wins!''
       \<longleftrightarrow> noMoves \<and> inCheck) \<and>
      (gameStatus g' = ''Stalemate! Game is a draw.'' \<longleftrightarrow> noMoves \<and> \<not> inCheck) \<and>
      (gameStatus g' = ''Check!'' \<longleftrightarrow> \<not> noMoves \<and> inCheck) \<and>
      (gameStatus g' = [] \<longleftrightarrow> \<not> noMoves \<and> \<not> inCheck) \<and>
      (gameOver g' \<longleftrightarrow> gameOver g \<or> noMoves)"
proof -
  define h where "h = g\<lparr>currentTurn := (if currentTurn g = White then Black else White)\<rparr>"
  have sw: "switchTurn g = checkGameStatus h"
    by (simp add: switchTurn_def h_def)
  have fr: "board (checkGameStatus h) = board h" "currentTurn (checkGameStatus h) = currentTurn h"
    "hasMoved (checkGameStatus h) = hasMoved h"
    by (simp_all add: checkGameStatus_def endGame_def Let_def)
  have gv: "getValidMoves (checkGameStatus h) r c = getValidMoves h r c" for r c
    by (rule getValidMoves_cong) (simp_all add: fr)
  have ow: "isPieceOwnedByCurrentPlayer (checkGameStatus h) r c = isPieceOwnedByCurrentPlayer h r c"
    for r c
    by (rule owned_cong) (simp_all add: fr)
  have nm: "(\<forall>r c. isInBounds r c \<longrightarrow> isPieceOwnedByCurrentPlayer h r c \<longrightarrow>
                    getValidMoves h r c = []) \<longleftrightarrow> \<not> hasAnyValidMoves h"
    by (auto simp: hasAnyValidMoves_iff)
  have go: "gameOver h = gameOver g" by (simp add: h_def)
  show ?thesis
    unfolding Let_def sw gv ow fr nm
    by (simp add: checkGameStatus_def endGame_def Let_def go)
qed

theorem checkGameStatus_classification_witness:
  "gameStatus (switchTurn matePosition) = ''Checkmate! Black wins!'' \<and>
   currentTurn (switchTurn matePosition) = White \<and>
   isKingInCheck (board (switchTurn matePosition)) True \<and>
   \<not> hasAnyValidMoves (switchTurn matePosition) \<and>
   gameOver (switchTurn matePosition)"
proof -
  have a: "switchTurn matePosition =
      matePosition \<lparr> currentTurn := White, gameOver := True,
                     gameStatus := ''Checkmate! Black wins!'' \<rparr>"
    by code_simp
  have b: "gameStatus (switchTurn matePosition) = ''Checkmate! Black wins!''"
    "currentTurn (switchTurn matePosition) = White"
    unfolding a by simp_all
  from checkGameStatus_classification [of matePosition] b
  show ?thesis
    by (simp add: Let_def hasAnyValidMoves_iff)
qed

section \<open>The initial position\<close>

lemma initial_moves:
  "allLegalMoves newGame =
   [((6, 0), mv 5 0), ((6, 0), mv 4 0), ((6, 1), mv 5 1), ((6, 1), mv 4 1),
    ((6, 2), mv 5 2), ((6, 2), mv 4 2), ((6, 3), mv 5 3), ((6, 3), mv 4 3),
    ((6, 4), mv 5 4), ((6, 4), mv 4 4), ((6, 5), mv 5 5), ((6, 5), mv 4 5),
    ((6, 6), mv 5 6), ((6, 6), mv 4 6), ((6, 7), mv 5 7), ((6, 7), mv 4 7),
    ((7, 1), mv 5 0), ((7, 1), mv 5 2), ((7, 6), mv 5 5), ((7, 6), mv 5 7)]"
  by code_simp

text \<open>
  Claim C6. In the initial position, White to move, the legal moves of all squares make
  twenty different moves: sixteen of a pawn and four of a knight.
\<close>

theorem initial_position_twenty_moves:
  "currentTurn newGame = White \<and>
   length (allLegalMoves newGame) = 20 \<and> distinct (allLegalMoves newGame) \<and>
   length (filter (\<lambda>fm. moverKind newGame fm = Some Pawn) (allLegalMoves newGame)) = 16 \<and>
   length (filter (\<lambda>fm. moverKind newGame fm = Some Knight) (allLegalMoves newGame)) = 4"
  unfolding initial_moves by code_simp

section \<open>Promotion\<close>

text \<open>
  Claim C7. A legal move of a pawn to the farthest rank of its colour (row 0 for White,
  row 7 for Black) leaves, once \<open>movePiece\<close> has committed it, a queen of the pawn's colour
  on the destination square, hence never a pawn.
\<close>

theorem promotion_to_queen:
  assumes wf: "wf_board (board g)" and inb: "isInBounds r c"
    and pc: "boardAt (board g) r c = Some (Piece cl Pawn)"
    and m: "m \<in> set (getValidMoves g r c)"
    and far: "row m = (if cl = White then 0 else 7)"
  shows "boardAt (board (movePiece g r c (row m) (col m) m)) (row m) (col m) = Some (Piece cl Queen)"
proof -
  from m pc have "m \<in> set (getPawnMoves (board g) r c)"
    by (simp add: getValidMoves_def)
  from mem_getPawnMoves [OF this] inb
  have mm: "m = mv (row m) (col m)" and tb: "isInBounds (row m) (col m)"
    by simp_all
  have nc: "\<not> isCastling m"
    by (subst mm) (simp add: mv_def)
  let ?b1 = "setAt (setAt (board g) (row m) (col m) (Some (Piece cl Pawn))) r c None"
  have wf1: "wf_board ?b1"
    by (intro wf_setAt wf)
  have "board (movePiece g r c (row m) (col m) m) =
        setAt ?b1 (row m) (col m) (Some (Piece cl Queen))"
    using pc nc far by (cases cl) (simp_all add: movePiece_def Let_def split: option.splits)
  then show ?thesis
    by (simp add: boardAt_setAt [OF wf1 tb])
qed

theorem promotion_to_queen_witness:
  "mv 0 1 \<in> set (getValidMoves promotionPosition 1 0) \<and>
   boardAt (board promotionPosition) 1 0 = Some (Piece White Pawn) \<and>
   boardAt (board (movePiece promotionPosition 1 0 0 1 (mv 0 1))) 0 1 = Some (Piece White Queen)"
proof -
  have a: "wf_board (board promotionPosition)" "isInBounds 1 0"
    "boardAt (board promotionPosition) 1 0 = Some (Piece White Pawn)"
    "mv 0 1 \<in> set (getValidMoves promotionPosition 1 0)"
    "row (mv 0 1) = (if White = White then 0 else 7)"
    by code_simp+
  from promotion_to_queen [OF a] a show ?thesis
    by (simp add: mv_def)
qed

section \<open>Capture lists\<close>

text \<open>
  Claim C8. A committed move that is not a castling move and lands on an occupied square
  appends the piece standing there to the list of that piece's own colour, which grows by
  one, and leaves the other list alone; a move onto an empty square, and a castling move,
  leave both lists alone.
\<close>

theorem movePiece_capture_lists:
  "boardAt (board g) fromRow fromCol = Some piece \<Longrightarrow>
   (\<not> isCastling m \<and> boardAt (board g) toRow toCol = Some cp \<and> isUpper cp \<longrightarrow>
      capturedWhite (movePiece g fromRow fromCol toRow toCol m) = capturedWhite g @ [cp] \<and>
      length (capturedWhite (movePiece g fromRow fromCol toRow toCol m)) =
        length (capturedWhite g) + 1 \<and>
      capturedBlack (movePiece g fromRow fromCol toRow toCol m) = capturedBlack g) \<and>
   (\<not> isCastling m \<and> boardAt (board g) toRow toCol = Some cp \<and> \<not> isUpper cp \<longrightarrow>
      capturedBlack (movePiece g fromRow fromCol toRow toCol m) = capturedBlack g @ [cp] \<and>
      length (capturedBlack (movePiece g fromRow fromCol toRow toCol m)) =
        length (capturedBlack g) + 1 \<and>
      capturedWhite (movePiece g fromRow fromCol toRow toCol m) = capturedWhite g) \<and>
   (isCastling m \<or> boardAt (board g) toRow toCol = None \<longrightarrow>
      capturedWhite (movePiece g fromRow fromCol toRow toCol m) = capturedWhite g \<and>
      capturedBlack (movePiece g fromRow fromCol toRow toCol m) = capturedBlack g)"
  by (auto simp: movePiece_def Let_def split: option.splits)

theorem movePiece_capture_lists_witness:
  "mv 3 3 \<in> set (getValidMoves capturePosition 4 4) \<and>
   capturedBlack (movePiece capturePosition 4 4 3 3 (mv 3 3)) =
     capturedBlack capturePosition @ [Piece Black Pawn] \<and>
   capturedWhite (movePiece capturePosition 4 4 3 3 (mv 3 3)) = capturedWhite capturePosition \<and>
   capturedBlack (movePiece capturePosition 6 0 5 0 (mv 5 0)) = capturedBlack capturePosition"
proof -
  have a: "boardAt (board capturePosition) 4 4 = Some (Piece White Pawn)"
    "boardAt (board capturePosition) 3 3 = Some (Piece Black Pawn)"
    "\<not> isCastling (mv 3 3)" "\<not> isUpper (Piece Black Pawn)"
    "boardAt (board capturePosition) 6 0 = Some (Piece White Pawn)"
    "boardAt (board capturePosition) 5 0 = None"
    by code_simp+
  have b: "mv 3 3 \<in> set (getValidMoves capturePosition 4 4)" by code_simp
  from movePiece_capture_lists [OF a(1), of "mv 3 3" 3 3 "Piece Black Pawn"]
    movePiece_capture_lists [OF a(5), of "mv 5 0" 5 0] a b
  show ?thesis by simp
qed

section \<open>The rook of a castling move\<close>

lemma ray_left_two:
  assumes "isInBounds br 7" "boardAt b br 6 = None" "boardAt b br 5 = None"
  shows "mv br 5 \<in> set (walkRay b w br 6 0 (- 1))"
proof -
  from assms(1) have ib: "isInBounds br 6" "isInBounds br 5"
    by (simp_all add: isInBounds_def)
  have "walkRay b w br 6 0 (- 1) = mv br 6 # walkRay b w br 5 0 (- 1)"
    by (subst walkRay.simps) (simp add: ib assms)
  moreover have "walkRay b w br 5 0 (- 1) = mv br 5 # walkRay b w br 4 0 (- 1)"
    by (subst walkRay.simps) (simp add: ib assms)
  ultimately show ?thesis by simp
qed

lemma ray_right_three:
  assumes "isInBounds br 0" "boardAt b br 1 = None" "boardAt b br 2 = None" "boardAt b br 3 = None"
  shows "mv br 3 \<in> set (walkRay b w br 1 0 1)"
proof -
  from assms(1) have ib: "isInBounds br 1" "isInBounds br 2" "isInBounds br 3"
    by (simp_all add: isInBounds_def)
  have "walkRay b w br 1 0 1 = mv br 1 # walkRay b w br 2 0 1"
    by (subst walkRay.simps) (simp add: ib assms)
  moreover have "walkRay b w br 2 0 1 = mv br 2 # walkRay b w br 3 0 1"
    by (subst walkRay.simps) (simp add: ib assms)
  moreover have "walkRay b w br 3 0 1 = mv br 3 # walkRay b w br 4 0 1"
    by (subst walkRay.simps) (simp add: ib assms)
  ultimately show ?thesis by simp
qed

text \<open>
  A rook of the other colour on the corner, with the squares next to it empty, attacks
  the square the king would cross.
\<close>

lemma corner_rook_attacks_kingside:
  assumes "isInBounds br 7" "boardAt b br 7 = Some p" "pkind p = Rook" "isUpper p \<noteq> isWhite"
    "boardAt b br 6 = None" "boardAt b br 5 = None"
  shows "isSquareUnderAttack b br 5 isWhite"
proof -
  have "mv br 5 \<in> set (getValidMovesWithoutCheckValidation b br 7)"
    using assms ray_left_two [OF assms(1,5,6), of "isUpper p"]
    by (simp add: getValidMovesWithoutCheckValidation_def getRookMoves_def getLinearMoves_def)
  then have "reaches (getValidMovesWithoutCheckValidation b br 7) br 5"
    by (auto simp: reaches_iff mv_def intro!: bexI [where x = "mv br 5"])
  with assms show ?thesis
    unfolding isSquareUnderAttack_iff by blast
qed

lemma corner_rook_attacks_queenside:
  assumes "isInBounds br 0" "boardAt b br 0 = Some p" "pkind p = Rook" "isUpper p \<noteq> isWhite"
    "boardAt b br 1 = None" "boardAt b br 2 = None" "boardAt b br 3 = None"
  shows "isSquareUnderAttack b br 3 isWhite"
proof -
  have "mv br 3 \<in> set (getValidMovesWithoutCheckValidation b br 0)"
    using assms ray_right_three [OF assms(1,5,6,7), of "isUpper p"]
    by (simp add: getValidMovesWithoutCheckValidation_def getRookMoves_def getLinearMoves_def)
  then have "reaches (getValidMovesWithoutCheckValidation b br 0) br 3"
    by (auto simp: reaches_iff mv_def intro!: bexI [where x = "mv br 3"])
  with assms show ?thesis
    unfolding isSquareUnderAttack_iff by blast
qed

lemma castling_corner_rook:
  assumes m: "m \<in> set (getCastlingMoves g r c isWhite)"
  shows "(col m = 6 \<or> col m = 2) \<and>
         boardAt (board g) (if isWhite then 7 else 0) (if col m = 6 then 7 else 0) =
           Some (Piece (if isWhite then White else Black) Rook)"
proof -
  let ?br = "if isWhite then 7 else 0 :: int"
  have ib: "isInBounds ?br 7" "isInBounds ?br 0"
    by (simp_all add: isInBounds_def)
  from m consider
    (K) "col m = 6" "boardAt (board g) ?br 5 = None" "boardAt (board g) ?br 6 = None"
        "\<exists>p. boardAt (board g) ?br 7 = Some p \<and> pkind p = Rook"
        "\<not> isSquareUnderAttack (board g) ?br 5 isWhite"
  | (Q) "col m = 2" "boardAt (board g) ?br 1 = None" "boardAt (board g) ?br 2 = None"
        "boardAt (board g) ?br 3 = None"
        "\<exists>p. boardAt (board g) ?br 0 = Some p \<and> pkind p = Rook"
        "\<not> isSquareUnderAttack (board g) ?br 3 isWhite"
    unfolding getCastlingMoves_def Let_def
    by (auto split: if_splits option.splits)
  then show ?thesis
  proof cases
    case K
    then obtain p where p: "boardAt (board g) ?br 7 = Some p" "pkind p = Rook" by blast
    have "isUpper p = isWhite"
      using corner_rook_attacks_kingside [OF ib(1) p, of isWhite] K by blast
    from piece_eqI [OF this p(2)] p K(1) show ?thesis
      by simp
  next
    case Q
    then obtain p where p: "boardAt (board g) ?br 0 = Some p" "pkind p = Rook" by blast
    have "isUpper p = isWhite"
      using corner_rook_attacks_queenside [OF ib(2) p, of isWhite] Q by blast
    from piece_eqI [OF this p(2)] p Q(1) show ?thesis
      by simp
  qed
qed

text \<open>
  Claim C9. In every position, a castling move is generated only to column 6 or 2, and
  then the corner square on the king's base row (column 7 for column 6, column 0 for
  column 2) holds a rook of the king's own colour: a rook of the other colour there
  attacks an empty square the king would cross, which withholds the move.
\<close>

theorem castling_needs_own_rook:
  "m \<in> set (getCastlingMoves g r c isWhite) \<Longrightarrow>
   (col m = 6 \<or> col m = 2) \<and>
   boardAt (board g) (if isWhite then 7 else 0) (if col m = 6 then 7 else 0) =
     Some (Piece (if isWhite then White else Black) Rook)"
  by (rule castling_corner_rook)

theorem castling_needs_own_rook_witness:
  "castleKingside 7 \<in> set (getCastlingMoves castlePosition 7 4 True) \<and>
   boardAt (board castlePosition) 7 7 = Some (Piece White Rook)"
proof -
  have a: "castleKingside 7 \<in> set (getCastlingMoves castlePosition 7 4 True)"
    by code_simp
  from castling_needs_own_rook [OF a] a show ?thesis
    by (simp add: castleKingside_def)
qed

section \<open>The has-moved flags after castling\<close>

lemma hasMoved_checkGameStatus: "hasMoved (checkGameStatus g) = hasMoved g"
  by (simp add: checkGameStatus_def endGame_def Let_def)

lemma hasMoved_switchTurn: "hasMoved (switchTurn g) = hasMoved g"
  by (simp add: switchTurn_def hasMoved_checkGameStatus)

lemma hasMoved_clearSelection: "hasMoved (clearSelection g) = hasMoved g"
  by (simp add: clearSelection_def)

lemma kingFlag_movePiece:
  "whiteKing (hasMoved g) \<Longrightarrow> whiteKing (hasMoved (movePiece g fr fc tr tc m))"
  "blackKing (hasMoved g) \<Longrightarrow> blackKing (hasMoved (movePiece g fr fc tr tc m))"
  by (auto simp: movePiece_def Let_def split: option.splits)

lemma kingFlag_click:
  "whiteKing (hasMoved g) \<Longrightarrow> whiteKing (hasMoved (handleSquareClick g r c))"
  "blackKing (hasMoved g) \<Longrightarrow> blackKing (hasMoved (handleSquareClick g r c))"
  by (auto simp: handleSquareClick_def selectSquare_def hasMoved_switchTurn
      hasMoved_clearSelection kingFlag_movePiece split: option.splits)

lemma kingFlag_clicks:
  "whiteKing (hasMoved g) \<Longrightarrow> whiteKing (hasMoved (clicks g cs))"
  "blackKing (hasMoved g) \<Longrightarrow> blackKing (hasMoved (clicks g cs))"
  by (induction g cs rule: clicks.induct) (simp_all add: kingFlag_click)

lemma getCastlingMoves_kingMoved:
  "(if isWhite then whiteKing (hasMoved g) else blackKing (hasMoved g)) \<Longrightarrow>
   getCastlingMoves g r c isWhite = []"
  by (simp add: getCastlingMoves_def)

text \<open>
  Claim C10. Committing a castling move of the king on \<open>(r, c)\<close> sets the has-moved flag
  of that king and no other flag, so the flag of the rook that was relocated stays false;
  and after the move, whatever is clicked, no castling move is generated for that colour
  any more, on either side.
\<close>

theorem castling_sets_only_king_flag:
  assumes k: "boardAt (board g) r c = Some (Piece cl King)"
    and m: "m \<in> set (getCastlingMoves g r c (cl = White))"
  shows "hasMoved (movePiece g r c (row m) (col m) m) =
           (if cl = White then (hasMoved g)\<lparr> whiteKing := True \<rparr>
            else (hasMoved g)\<lparr> blackKing := True \<rparr>) \<and>
         (col m = 6 \<longrightarrow> \<not> (if cl = White
             then whiteRookRight (hasMoved (movePiece g r c (row m) (col m) m))
             else blackRookRight (hasMoved (movePiece g r c (row m) (col m) m)))) \<and>
         (col m = 2 \<longrightarrow> \<not> (if cl = White
             then whiteRookLeft (hasMoved (movePiece g r c (row m) (col m) m))
             else blackRookLeft (hasMoved (movePiece g r c (row m) (col m) m)))) \<and>
         (\<forall>cs r' c'. getCastlingMoves
             (clicks (switchTurn (clearSelection (movePiece g r c (row m) (col m) m))) cs)
             r' c' (cl = White) = [])"
proof -
  let ?g' = "movePiece g r c (row m) (col m) m"
  from mem_getCastlingMoves [OF m]
  have cm: "isCastling m" and rc: "rookCol m \<noteq> None"
    and side: "(col m = 6 \<and>
      \<not> (if cl = White then whiteRookRight (hasMoved g) else blackRookRight (hasMoved g))) \<or>
    (col m = 2 \<and>
      \<not> (if cl = White then whiteRookLeft (hasMoved g) else blackRookLeft (hasMoved g)))"
    by auto
  have hm: "hasMoved ?g' =
           (if cl = White then (hasMoved g)\<lparr> whiteKing := True \<rparr>
            else (hasMoved g)\<lparr> blackKing := True \<rparr>)"
    using k cm rc by (auto simp: movePiece_def Let_def isUpper_def split: option.splits)
  have fl: "if cl = White then whiteKing (hasMoved ?g') else blackKing (hasMoved ?g')"
    by (simp add: hm)
  have later: "getCastlingMoves (clicks (switchTurn (clearSelection ?g')) cs) r' c' (cl = White) = []"
    for cs r' c'
  proof (rule getCastlingMoves_kingMoved)
    show "if cl = White
      then whiteKing (hasMoved (clicks (switchTurn (clearSelection ?g')) cs))
      else blackKing (hasMoved (clicks (switchTurn (clearSelection ?g')) cs))"
      using fl
      by (auto intro!: kingFlag_clicks simp: hasMoved_switchTurn hasMoved_clearSelection
          split: if_splits)
  qed
  show ?thesis
    unfolding hm using side later by auto
qed

theorem castling_sets_only_king_flag_witness:
  "castleKingside 7 \<in> set (getCastlingMoves castlePosition 7 4 True) \<and>
   whiteKing (hasMoved (movePiece castlePosition 7 4 7 6 (castleKingside 7))) \<and>
   \<not> whiteRookRight (hasMoved (movePiece castlePosition 7 4 7 6 (castleKingside 7))) \<and>
   getCastlingMoves
     (clicks (switchTurn (clearSelection (movePiece castlePosition 7 4 7 6 (castleKingside 7))))
        [(0, 4), (0, 6), (7, 6)])
     7 6 True = []"
proof -
  have a: "boardAt (board castlePosition) 7 4 = Some (Piece White King)"
    "castleKingside 7 \<in> set (getCastlingMoves castlePosition 7 4 (White = White))"
    by code_simp+
  have b: "row (castleKingside 7) = 7" "col (castleKingside 7) = 6"
    by (simp_all add: castleKingside_def)
  note t = castling_sets_only_king_flag [OF a, unfolded b]
  have "whiteKing (hasMoved (movePiece castlePosition 7 4 7 6 (castleKingside 7)))"
    by (simp add: t [THEN conjunct1])
  moreover have "\<not> whiteRookRight (hasMoved (movePiece castlePosition 7 4 7 6 (castleKingside 7)))"
    using t [THEN conjunct2, THEN conjunct1] by simp
  moreover have "getCastlingMoves
     (clicks (switchTurn (clearSelection (movePiece castlePosition 7 4 7 6 (castleKingside 7))))
        [(0, 4), (0, 6), (7, 6)])
     7 6 True = []"
    using t [THEN conjunct2, THEN conjunct2, THEN conjunct2, rule_format,
        of "[(0, 4), (0, 6), (7, 6)]" 7 6]
    by simp
  ultimately show ?thesis
    using a(2) by simp
qed

section \<open>Castling past a pawn\<close>

lemma clicks_pawnGame: "clicks newGame pawnGame = pawnPosition"
  by code_simp

text \<open>
  On claim C2. The game \<open>pawnGame\<close> ends with a black pawn on (6, 4), which would take
  any white piece on (7, 5) (the second statement puts a bishop there), so it attacks that
  square; the square is empty, \<open>isSquareUnderAttack\<close> denies the attack, and kingside
  castling, which takes the king across (7, 5), is generated and passes the legality
  filter.
\<close>

theorem castling_across_pawn_attack:
  "boardAt (board pawnPosition) 6 4 = Some (Piece Black Pawn) \<and>
   mv 7 5 \<in> set (getPawnMoves (setAt (board pawnPosition) 7 5 (Some (Piece White Bishop))) 6 4) \<and>
   boardAt (board pawnPosition) 7 5 = None \<and>
   isSquareUnderAttack (board pawnPosition) 7 5 True = False \<and>
   getCastlingMoves pawnPosition 7 4 True = [castleKingside 7] \<and>
   castleKingside 7 \<in> set (getValidMoves pawnPosition 7 4)"
  by code_simp

section \<open>What the move generators return\<close>

subsection \<open>The squares of a ray\<close>

text \<open>
  \<open>walkRay\<close> returns exactly the squares that \<open>rayHit\<close> describes: the \<open>k\<close>-th square
  of the ray, for every \<open>k\<close> such that the squares before it are empty and on the board.
\<close>

lemma rayHit_0:
  "rayHit b w r c dr dc 0 \<longleftrightarrow>
   isInBounds r c \<and> (boardAt b r c = None \<or> isOpponentPiece b r c w)"
  by (simp add: rayHit_def)

lemma rayHit_Suc:
  "rayHit b w r c dr dc (Suc k) \<longleftrightarrow>
   isInBounds r c \<and> boardAt b r c = None \<and> rayHit b w (r + dr) (c + dc) dr dc k"
proof -
  have sh: "r + (1 + int j) * dr = r + dr + int j * dr" "c + (1 + int j) * dc = c + dc + int j * dc"
    for j
    by (simp_all add: algebra_simps)
  have al: "(\<forall>j<Suc k. Q j) \<longleftrightarrow> Q 0 \<and> (\<forall>j<k. Q (Suc j))" for Q
    by (auto simp: less_Suc_eq_0_disj)
  show ?thesis
    unfolding rayHit_def al
    by (auto simp: sh)
qed

lemma ex_nat_cases: "(\<exists>k::nat. P k) \<longleftrightarrow> P 0 \<or> (\<exists>k. P (Suc k))"
  by (metis not0_implies_Suc)

lemma walkRay_iff:
  "m \<in> set (walkRay b w r c dr dc) \<longleftrightarrow>
   (dr \<noteq> 0 \<or> dc \<noteq> 0) \<and>
   (\<exists>k. m = mv (r + int k * dr) (c + int k * dc) \<and> rayHit b w r c dr dc k)"
proof (induction b w r c dr dc rule: walkRay.induct)
  case (1 b w r c dr dc)
  have sh: "r + (1 + int j) * dr = r + dr + int j * dr" "c + (1 + int j) * dc = c + dc + int j * dc"
    for j
    by (simp_all add: algebra_simps)
  have ex: "(\<exists>k. m = mv (r + int k * dr) (c + int k * dc) \<and> rayHit b w r c dr dc k) \<longleftrightarrow>
      (m = mv r c \<and> rayHit b w r c dr dc 0) \<or>
      (\<exists>k. m = mv (r + dr + int k * dr) (c + dc + int k * dc) \<and> rayHit b w r c dr dc (Suc k))"
    by (subst ex_nat_cases) (simp add: sh)
  show ?case
  proof (cases "isInBounds r c \<and> (dr \<noteq> 0 \<or> dc \<noteq> 0)")
    case False
    then have "walkRay b w r c dr dc = []"
      by (subst walkRay.simps) simp
    moreover have "\<not> rayHit b w r c dr dc k" if "dr \<noteq> 0 \<or> dc \<noteq> 0" for k
      using False that by (cases k) (auto simp: rayHit_0 rayHit_Suc)
    ultimately show ?thesis by auto
  next
    case go: True
    show ?thesis
    proof (cases "boardAt b r c = None")
      case empty: True
      have "walkRay b w r c dr dc = mv r c # walkRay b w (r + dr) (c + dc) dr dc"
        by (subst walkRay.simps) (use go empty in simp)
      with "1.IH" [OF go empty] go empty show ?thesis
        unfolding ex by (auto simp: rayHit_0 rayHit_Suc)
    next
      case occupied: False
      have "walkRay b w r c dr dc = (if isOpponentPiece b r c w then [mv r c] else [])"
        by (subst walkRay.simps) (use go occupied in auto)
      with go occupied show ?thesis
        unfolding ex by (auto simp: rayHit_0 rayHit_Suc)
    qed
  qed
qed

subsection \<open>Moves that survive a change of the board\<close>

text \<open>
  A move of a piece onto an occupied square is still generated on another board \<open>b\<close>
  when the piece and the target are the same there, and every square that is empty on the
  first board \<open>b'\<close> is empty on \<open>b\<close> too, but for one corner square: a corner lies
  strictly between no two squares of a line.
\<close>

lemma mem_getLinearMoves:
  "m \<in> set (getLinearMoves b r c ds) \<longleftrightarrow>
   (\<exists>p dr dc k. boardAt b r c = Some p \<and> (dr, dc) \<in> set ds \<and> (dr \<noteq> 0 \<or> dc \<noteq> 0) \<and>
      m = mv (r + dr + int k * dr) (c + dc + int k * dc) \<and>
      rayHit b (isUpper p) (r + dr) (c + dc) dr dc k)"
  by (cases "boardAt b r c") (auto simp: getLinearMoves_def walkRay_iff)

lemma corner_not_between:
  assumes "isInBounds r c" "isInBounds (r + dr + int k * dr) (c + dc + int k * dc)" "j < k"
    "dr \<in> {- 1, 0, 1}" "dc \<in> {- 1, 0, 1}" "dr \<noteq> 0 \<or> dc \<noteq> 0"
    "er \<in> {0, 7}" "ec \<in> {0, 7}"
  shows "(r + dr + int j * dr, c + dc + int j * dc) \<noteq> (er, ec)"
  using assms by (auto simp: isInBounds_def)

lemma row_mv [simp]: "row (mv r c) = r" "col (mv r c) = c" "isCastling (mv r c) = False"
  by (simp_all add: mv_def)

lemma isOpponentPiece_cong:
  "boardAt b r c = boardAt b' r c \<Longrightarrow> isOpponentPiece b r c w = isOpponentPiece b' r c w"
  by (simp add: isOpponentPiece_def)

lemma linear_transfer:
  assumes m: "m \<in> set (getLinearMoves b' r c ds)"
    and ds: "unitDirs ds" and inb: "isInBounds r c"
    and own: "boardAt b r c = boardAt b' r c"
    and tgt: "boardAt b (row m) (col m) = boardAt b' (row m) (col m)"
    and corner: "er \<in> {0, 7}" "ec \<in> {0, 7}"
    and emp: "\<And>x y. (x, y) \<noteq> (er, ec) \<Longrightarrow> boardAt b' x y = None \<Longrightarrow> boardAt b x y = None"
  shows "m \<in> set (getLinearMoves b r c ds)"
proof -
  from m obtain p dr dc k where p: "boardAt b' r c = Some p" and d: "(dr, dc) \<in> set ds"
    and nz: "dr \<noteq> 0 \<or> dc \<noteq> 0"
    and mm: "m = mv (r + dr + int k * dr) (c + dc + int k * dc)"
    and hit: "rayHit b' (isUpper p) (r + dr) (c + dc) dr dc k"
    unfolding mem_getLinearMoves by blast
  from ds d have u: "dr \<in> {- 1, 0, 1}" "dc \<in> {- 1, 0, 1}"
    by (auto simp: unitDirs_def list_all_iff)
  from hit have tb: "isInBounds (r + dr + int k * dr) (c + dc + int k * dc)"
    by (simp add: rayHit_def)
  have "rayHit b (isUpper p) (r + dr) (c + dc) dr dc k"
    unfolding rayHit_def
  proof (intro conjI allI impI)
    show "isInBounds (r + dr + int k * dr) (c + dc + int k * dc)" by (rule tb)
  next
    fix j assume j: "j < k"
    with hit show "isInBounds (r + dr + int j * dr) (c + dc + int j * dc)"
      by (simp add: rayHit_def)
    from hit j have "boardAt b' (r + dr + int j * dr) (c + dc + int j * dc) = None"
      by (simp add: rayHit_def)
    with corner_not_between [OF inb tb j u nz corner]
    show "boardAt b (r + dr + int j * dr) (c + dc + int j * dc) = None"
      by (rule emp)
  next
    from tgt mm have e: "boardAt b (r + dr + int k * dr) (c + dc + int k * dc) =
        boardAt b' (r + dr + int k * dr) (c + dc + int k * dc)"
      by simp
    from hit show "boardAt b (r + dr + int k * dr) (c + dc + int k * dc) = None \<or>
        isOpponentPiece b (r + dr + int k * dr) (c + dc + int k * dc) (isUpper p)"
      unfolding e isOpponentPiece_cong [OF e] by (simp add: rayHit_def)
  qed
  with p d nz mm own show ?thesis
    unfolding mem_getLinearMoves by auto
qed

lemma mv_eq [simp]: "mv r c = mv r' c' \<longleftrightarrow> r = r' \<and> c = c'"
  by (simp add: mv_def)
lemma pawn_capture_elim:
  assumes "m \<in> set (getPawnMoves b r c)" "boardAt b (row m) (col m) \<noteq> None" "boardAt b r c = Some p"
  shows "\<exists>nc. (nc = c - 1 \<or> nc = c + 1) \<and>
    m = mv (r + (if isUpper p then - 1 else 1)) nc \<and>
    isInBounds (r + (if isUpper p then - 1 else 1)) nc \<and>
    isOpponentPiece b (r + (if isUpper p then - 1 else 1)) nc (isUpper p)"
proof (cases "isUpper p")
  case True
  with assms have "isInBounds (r - 1) c \<and> boardAt b (r - 1) c = None \<and>
         (m = mv (r - 1) c \<or> m = mv (r - 2) c \<and> r = 6 \<and> boardAt b (r - 2) c = None) \<or>
         m = mv (r - 1) (c - 1) \<and> isInBounds (r - 1) (c - 1) \<and>
         isOpponentPiece b (r - 1) (c - 1) True \<or>
         m = mv (r - 1) (c + 1) \<and> isInBounds (r - 1) (c + 1) \<and>
         isOpponentPiece b (r - 1) (c + 1) True"
    by (simp add: getPawnMoves_def Let_def split: if_splits) (elim disjE conjE; simp)
  with assms(2) True show ?thesis
    by (elim disjE conjE) simp_all
next
  case False
  with assms have "isInBounds (r + 1) c \<and> boardAt b (r + 1) c = None \<and>
         (m = mv (r + 1) c \<or> m = mv (r + 2) c \<and> r = 1 \<and> boardAt b (r + 2) c = None) \<or>
         m = mv (r + 1) (c - 1) \<and> isInBounds (r + 1) (c - 1) \<and>
         isOpponentPiece b (r + 1) (c - 1) False \<or>
         m = mv (r + 1) (c + 1) \<and> isInBounds (r + 1) (c + 1) \<and>
         isOpponentPiece b (r + 1) (c + 1) False"
    by (simp add: getPawnMoves_def Let_def split: if_splits) (elim disjE conjE; simp)
  with assms(2) False show ?thesis
    by (elim disjE conjE) simp_all
qed

lemma pawn_capture_intro:
  assumes "boardAt b r c = Some p" "nc = c - 1 \<or> nc = c + 1"
    "isInBounds (r + (if isUpper p then - 1 else 1)) nc"
    "isOpponentPiece b (r + (if isUpper p then - 1 else 1)) nc (isUpper p)"
  shows "mv (r + (if isUpper p then - 1 else 1)) nc \<in> set (getPawnMoves b r c)"
proof -
  from assms(4) have "boardAt b (r + (if isUpper p then - 1 else 1)) nc \<noteq> None"
    by (auto simp: isOpponentPiece_def split: option.splits)
  with assms show ?thesis
    by (cases "isUpper p"; elim disjE) (simp_all add: getPawnMoves_def Let_def)
qed

lemma pawn_transfer:
  assumes m: "m \<in> set (getPawnMoves b' r c)"
    and occ: "boardAt b' (row m) (col m) \<noteq> None"
    and own: "boardAt b r c = boardAt b' r c"
    and tgt: "boardAt b (row m) (col m) = boardAt b' (row m) (col m)"
  shows "m \<in> set (getPawnMoves b r c)"
proof -
  from m obtain p where p: "boardAt b' r c = Some p"
    by (cases "boardAt b' r c") (simp_all add: getPawnMoves_def)
  let ?d = "if isUpper p then - 1 else 1 :: int"
  from pawn_capture_elim [OF m occ p] obtain nc where nc: "nc = c - 1 \<or> nc = c + 1"
    and mm: "m = mv (r + ?d) nc" and ib: "isInBounds (r + ?d) nc"
    and op: "isOpponentPiece b' (r + ?d) nc (isUpper p)"
    by blast
  from tgt mm have e: "boardAt b (r + ?d) nc = boardAt b' (r + ?d) nc"
    by simp
  from op have "isOpponentPiece b (r + ?d) nc (isUpper p)"
    unfolding isOpponentPiece_cong [OF e] .
  from pawn_capture_intro [OF _ nc ib this] p own mm show ?thesis
    by simp
qed

lemma mem_offsetMoves:
  "m \<in> set (offsetMoves b r c offs) \<longleftrightarrow>
   (\<exists>p ro co. boardAt b r c = Some p \<and> (ro, co) \<in> set offs \<and> m = mv (r + ro) (c + co) \<and>
      isInBounds (r + ro) (c + co) \<and>
      (boardAt b (r + ro) (c + co) = None \<or> isOpponentPiece b (r + ro) (c + co) (isUpper p)))"
  by (cases "boardAt b r c") (auto simp: offsetMoves_def Let_def)

lemma offset_transfer:
  assumes m: "m \<in> set (offsetMoves b' r c offs)"
    and own: "boardAt b r c = boardAt b' r c"
    and tgt: "boardAt b (row m) (col m) = boardAt b' (row m) (col m)"
  shows "m \<in> set (offsetMoves b r c offs)"
proof -
  from m obtain p ro co where p: "boardAt b' r c = Some p" and o: "(ro, co) \<in> set offs"
    and mm: "m = mv (r + ro) (c + co)" and ib: "isInBounds (r + ro) (c + co)"
    and ok: "boardAt b' (r + ro) (c + co) = None \<or>
             isOpponentPiece b' (r + ro) (c + co) (isUpper p)"
    unfolding mem_offsetMoves by blast
  from tgt mm have e: "boardAt b (r + ro) (c + co) = boardAt b' (r + ro) (c + co)"
    by simp
  from ok have "boardAt b (r + ro) (c + co) = None \<or>
      isOpponentPiece b (r + ro) (c + co) (isUpper p)"
    unfolding e isOpponentPiece_cong [OF e] .
  with p o mm ib own show ?thesis
    unfolding mem_offsetMoves by auto
qed

lemma unitDirs_all:
  "unitDirs [(- 1, 0), (1, 0), (0, - 1), (0, 1)]"
  "unitDirs [(- 1, - 1), (- 1, 1), (1, - 1), (1, 1)]"
  "unitDirs [(- 1, 0), (1, 0), (0, - 1), (0, 1), (- 1, - 1), (- 1, 1), (1, - 1), (1, 1)]"
  by (simp_all add: unitDirs_def)

lemma attack_transfer:
  assumes m: "m \<in> set (getValidMovesWithoutCheckValidation b' r c)"
    and inb: "isInBounds r c"
    and own: "boardAt b r c = boardAt b' r c"
    and occ: "boardAt b' (row m) (col m) \<noteq> None"
    and tgt: "boardAt b (row m) (col m) = boardAt b' (row m) (col m)"
    and corner: "er \<in> {0, 7}" "ec \<in> {0, 7}"
    and emp: "\<And>x y. (x, y) \<noteq> (er, ec) \<Longrightarrow> boardAt b' x y = None \<Longrightarrow> boardAt b x y = None"
  shows "m \<in> set (getValidMovesWithoutCheckValidation b r c)"
proof -
  from m obtain p where p: "boardAt b' r c = Some p"
    by (cases "boardAt b' r c") (auto simp: getValidMovesWithoutCheckValidation_def)
  with own have p': "boardAt b r c = Some p"
    by simp
  note lin = linear_transfer [OF _ _ inb own tgt corner emp]
  show ?thesis
  proof (cases "pkind p")
    case Pawn
    with m p have "m \<in> set (getPawnMoves b' r c)"
      by (simp add: getValidMovesWithoutCheckValidation_def)
    from pawn_transfer [OF this occ own tgt] Pawn p' show ?thesis
      by (simp add: getValidMovesWithoutCheckValidation_def)
  next
    case Rook
    with m p have "m \<in> set (getLinearMoves b' r c [(- 1, 0), (1, 0), (0, - 1), (0, 1)])"
      by (simp add: getValidMovesWithoutCheckValidation_def getRookMoves_def)
    from lin [OF this unitDirs_all(1)] Rook p' show ?thesis
      by (simp add: getValidMovesWithoutCheckValidation_def getRookMoves_def)
  next
    case Knight
    with m p have "m \<in> set (getKnightMoves b' r c)"
      by (simp add: getValidMovesWithoutCheckValidation_def)
    then have "m \<in> set (getKnightMoves b r c)"
      unfolding getKnightMoves_def by (rule offset_transfer [OF _ own tgt])
    with Knight p' show ?thesis
      by (simp add: getValidMovesWithoutCheckValidation_def)
  next
    case Bishop
    with m p have "m \<in> set (getLinearMoves b' r c [(- 1, - 1), (- 1, 1), (1, - 1), (1, 1)])"
      by (simp add: getValidMovesWithoutCheckValidation_def getBishopMoves_def)
    from lin [OF this unitDirs_all(2)] Bishop p' show ?thesis
      by (simp add: getValidMovesWithoutCheckValidation_def getBishopMoves_def)
  next
    case Queen
    with m p have "m \<in> set (getLinearMoves b' r c
        [(- 1, 0), (1, 0), (0, - 1), (0, 1), (- 1, - 1), (- 1, 1), (1, - 1), (1, 1)])"
      by (simp add: getValidMovesWithoutCheckValidation_def getQueenMoves_def)
    from lin [OF this unitDirs_all(3)] Queen p' show ?thesis
      by (simp add: getValidMovesWithoutCheckValidation_def getQueenMoves_def)
  next
    case King
    with m p have "m \<in> set (getBasicKingMoves b' r c)"
      by (simp add: getValidMovesWithoutCheckValidation_def)
    then have "m \<in> set (getBasicKingMoves b r c)"
      unfolding getBasicKingMoves_def by (rule offset_transfer [OF _ own tgt])
    with King p' show ?thesis
      by (simp add: getValidMovesWithoutCheckValidation_def)
  qed
qed

lemma findKing_alt:
  "findKing b isWhite = find (\<lambda>(r, c). boardAt b r c = Some (kingOf isWhite)) allSquares"
  unfolding findKing_def kingOf_def
  by (rule find_cong) (auto split: option.splits)

subsection \<open>Check, in terms of single moves\<close>

lemma find_Some_holds: "find P xs = Some x \<Longrightarrow> P x \<and> x \<in> set xs"
  by (induction xs) (auto split: if_splits)

lemma findKing_Some:
  assumes "findKing b isWhite = Some (kr, kc)"
  shows "isInBounds kr kc \<and> boardAt b kr kc = Some (kingOf isWhite)"
proof -
  from assms have f: "find (\<lambda>(r, c). boardAt b r c = Some (kingOf isWhite)) allSquares = Some (kr, kc)"
    by (simp add: findKing_alt)
  from find_Some_holds [OF f] have "isInBounds kr kc"
    by (simp add: allSquares_iff)
  moreover from find_Some_holds [OF f] have "boardAt b kr kc = Some (kingOf isWhite)"
    by simp
  ultimately show ?thesis ..
qed

lemma findKing_None:
  "findKing b isWhite = None \<longleftrightarrow>
   \<not> (\<exists>r c. isInBounds r c \<and> boardAt b r c = Some (kingOf isWhite))"
  unfolding findKing_alt find_None_iff
  by (auto simp: allSquares_iff)

lemma findKing_cong:
  assumes "\<And>r c. isInBounds r c \<Longrightarrow>
    (boardAt b' r c = Some (kingOf isWhite)) = (boardAt b r c = Some (kingOf isWhite))"
  shows "findKing b' isWhite = findKing b isWhite"
  unfolding findKing_alt
  by (rule find_cong) (auto simp: allSquares_iff assms)

lemma isKingInCheck_alt:
  "isKingInCheck b isWhite =
   (case findKing b isWhite of None \<Rightarrow> False
    | Some (kr, kc) \<Rightarrow> isSquareUnderAttack b kr kc isWhite)"
  unfolding isKingInCheck_def isSquareUnderAttack_def ..

lemma isKingInCheck_iff:
  "isKingInCheck b isWhite \<longleftrightarrow>
   (\<exists>kr kc r c p m. findKing b isWhite = Some (kr, kc) \<and> isInBounds r c \<and>
      boardAt b r c = Some p \<and> isUpper p \<noteq> isWhite \<and>
      m \<in> set (getValidMovesWithoutCheckValidation b r c) \<and> row m = kr \<and> col m = kc)"
proof (cases "findKing b isWhite")
  case None
  then show ?thesis by (simp add: isKingInCheck_alt)
next
  case (Some k)
  obtain kr kc where k: "k = (kr, kc)" by (cases k)
  show ?thesis
    unfolding isKingInCheck_alt Some k isSquareUnderAttack_iff reaches_iff
    by (simp add: Bex_def)
qed

lemma check_transfer:
  assumes chk: "isKingInCheck b' isWhite"
    and kings: "\<And>r c. isInBounds r c \<Longrightarrow>
      (boardAt b' r c = Some (kingOf isWhite)) = (boardAt b r c = Some (kingOf isWhite))"
    and att: "\<And>r c p. isInBounds r c \<Longrightarrow> boardAt b' r c = Some p \<Longrightarrow>
      isUpper p \<noteq> isWhite \<Longrightarrow> boardAt b r c = Some p"
    and corner: "er \<in> {0, 7}" "ec \<in> {0, 7}"
    and emp: "\<And>x y. (x, y) \<noteq> (er, ec) \<Longrightarrow> boardAt b' x y = None \<Longrightarrow> boardAt b x y = None"
  shows "isKingInCheck b isWhite"
proof -
  from chk obtain kr kc r c p m where k': "findKing b' isWhite = Some (kr, kc)"
    and inb: "isInBounds r c" and p: "boardAt b' r c = Some p" and op: "isUpper p \<noteq> isWhite"
    and m: "m \<in> set (getValidMovesWithoutCheckValidation b' r c)"
    and rc: "row m = kr" "col m = kc"
    unfolding isKingInCheck_iff by blast
  from findKing_cong [of b' isWhite b] kings k' have k: "findKing b isWhite = Some (kr, kc)"
    by simp
  from findKing_Some [OF k'] findKing_Some [OF k] rc
  have occ: "boardAt b' (row m) (col m) \<noteq> None"
    and tgt: "boardAt b (row m) (col m) = boardAt b' (row m) (col m)"
    by simp_all
  from att [OF inb p op] p have own: "boardAt b r c = boardAt b' r c"
    by simp
  from attack_transfer [OF m inb own occ tgt corner emp]
  have "m \<in> set (getValidMovesWithoutCheckValidation b r c)" .
  with k inb att [OF inb p op] op rc show ?thesis
    unfolding isKingInCheck_iff by blast
qed

subsection \<open>Where a generated move lands\<close>

text \<open>
  Every move of the generators without castling is a plain move object, lands on the
  board, away from the square it starts from, on an empty square or on a piece of the
  other colour.
\<close>

lemma mem_getPawnMoves_cases:
  assumes "m \<in> set (getPawnMoves b r c)" "boardAt b r c = Some p"
  shows "(m = mv (r + (if isUpper p then - 1 else 1)) c \<and>
          isInBounds (r + (if isUpper p then - 1 else 1)) c \<and>
          boardAt b (r + (if isUpper p then - 1 else 1)) c = None) \<or>
         (m = mv (r + 2 * (if isUpper p then - 1 else 1)) c \<and>
          r = (if isUpper p then 6 else 1) \<and>
          boardAt b (r + 2 * (if isUpper p then - 1 else 1)) c = None) \<or>
         (m = mv (r + (if isUpper p then - 1 else 1)) (c - 1) \<and>
          isInBounds (r + (if isUpper p then - 1 else 1)) (c - 1) \<and>
          isOpponentPiece b (r + (if isUpper p then - 1 else 1)) (c - 1) (isUpper p)) \<or>
         (m = mv (r + (if isUpper p then - 1 else 1)) (c + 1) \<and>
          isInBounds (r + (if isUpper p then - 1 else 1)) (c + 1) \<and>
          isOpponentPiece b (r + (if isUpper p then - 1 else 1)) (c + 1) (isUpper p))"
  using assms
  by (cases "isUpper p")
     ((simp add: getPawnMoves_def Let_def split: if_splits), (elim disjE conjE; simp))+

lemma pawn_props:
  assumes m: "m \<in> set (getPawnMoves b r c)" and p: "boardAt b r c = Some p"
    and inb: "isInBounds r c"
  shows "m = mv (row m) (col m) \<and> isInBounds (row m) (col m) \<and> (row m, col m) \<noteq> (r, c) \<and>
         (boardAt b (row m) (col m) = None \<or> isOpponentPiece b (row m) (col m) (isUpper p))"
  using mem_getPawnMoves_cases [OF m p] inb
  by (elim disjE conjE) (auto simp: isInBounds_def split: if_splits)

lemma linear_props:
  assumes m: "m \<in> set (getLinearMoves b r c ds)" and p: "boardAt b r c = Some p"
  shows "m = mv (row m) (col m) \<and> isInBounds (row m) (col m) \<and> (row m, col m) \<noteq> (r, c) \<and>
         (boardAt b (row m) (col m) = None \<or> isOpponentPiece b (row m) (col m) (isUpper p))"
proof -
  from m p obtain dr dc k where nz: "dr \<noteq> 0 \<or> dc \<noteq> 0"
    and mm: "m = mv (r + dr + int k * dr) (c + dc + int k * dc)"
    and hit: "rayHit b (isUpper p) (r + dr) (c + dc) dr dc k"
    unfolding mem_getLinearMoves by auto
  have "dr + int k * dr = (1 + int k) * dr" "dc + int k * dc = (1 + int k) * dc"
    by (simp_all add: algebra_simps)
  with nz have "dr + int k * dr \<noteq> 0 \<or> dc + int k * dc \<noteq> 0"
    by auto
  then have "(r + dr + int k * dr, c + dc + int k * dc) \<noteq> (r, c)"
    by auto
  with hit mm show ?thesis
    by (simp add: rayHit_def)
qed

lemma offset_props:
  assumes m: "m \<in> set (offsetMoves b r c offs)" and p: "boardAt b r c = Some p"
    and nz: "(0, 0) \<notin> set offs"
  shows "m = mv (row m) (col m) \<and> isInBounds (row m) (col m) \<and> (row m, col m) \<noteq> (r, c) \<and>
         (boardAt b (row m) (col m) = None \<or> isOpponentPiece b (row m) (col m) (isUpper p))"
proof -
  from m p obtain ro co where o: "(ro, co) \<in> set offs" and mm: "m = mv (r + ro) (c + co)"
    and ib: "isInBounds (r + ro) (c + co)"
    and ok: "boardAt b (r + ro) (c + co) = None \<or>
             isOpponentPiece b (r + ro) (c + co) (isUpper p)"
    unfolding mem_offsetMoves by auto
  from o nz have "ro \<noteq> 0 \<or> co \<noteq> 0"
    by auto
  with mm ib ok show ?thesis
    by auto
qed

lemma pseudo_props:
  assumes m: "m \<in> set (getValidMovesWithoutCheckValidation b r c)"
    and p: "boardAt b r c = Some p" and inb: "isInBounds r c"
  shows "m = mv (row m) (col m) \<and> isInBounds (row m) (col m) \<and> (row m, col m) \<noteq> (r, c) \<and>
         (boardAt b (row m) (col m) = None \<or> isOpponentPiece b (row m) (col m) (isUpper p))"
proof (cases "pkind p")
  case Pawn
  with m p show ?thesis
    by (intro pawn_props [OF _ p inb]) (simp add: getValidMovesWithoutCheckValidation_def)
next
  case Rook
  with m p show ?thesis
    by (intro linear_props [OF _ p, of _ "[(- 1, 0), (1, 0), (0, - 1), (0, 1)]"])
       (simp add: getValidMovesWithoutCheckValidation_def getRookMoves_def)
next
  case Knight
  with m p have "m \<in> set (getKnightMoves b r c)"
    by (simp add: getValidMovesWithoutCheckValidation_def)
  then show ?thesis
    unfolding getKnightMoves_def by (rule offset_props [OF _ p]) simp
next
  case Bishop
  with m p show ?thesis
    by (intro linear_props [OF _ p, of _ "[(- 1, - 1), (- 1, 1), (1, - 1), (1, 1)]"])
       (simp add: getValidMovesWithoutCheckValidation_def getBishopMoves_def)
next
  case Queen
  with m p have "m \<in> set (getQueenMoves b r c)"
    by (simp add: getValidMovesWithoutCheckValidation_def)
  then show ?thesis
    unfolding getQueenMoves_def by (rule linear_props [OF _ p])
next
  case King
  with m p have "m \<in> set (getBasicKingMoves b r c)"
    by (simp add: getValidMovesWithoutCheckValidation_def)
  then show ?thesis
    unfolding getBasicKingMoves_def by (rule offset_props [OF _ p]) simp
qed

lemma getValidMoves_mem:
  assumes m: "m \<in> set (getValidMoves g r c)" and p: "boardAt (board g) r c = Some p"
  shows "\<not> wouldBeInCheck (board g) r c (row m) (col m) \<and>
         (m \<in> set (getValidMovesWithoutCheckValidation (board g) r c) \<or>
          pkind p = King \<and> m \<in> set (getCastlingMoves g r c (isUpper p)))"
  using m p
  by (cases "pkind p")
     (auto simp: getValidMoves_def getValidMovesWithoutCheckValidation_def getKingMoves_def
        getBasicKingMoves_def)

lemma board_movePiece:
  assumes p: "boardAt (board g) fromRow fromCol = Some p"
  shows "board (movePiece g fromRow fromCol toRow toCol m) =
    (let b1 = setAt (setAt (board g) toRow toCol (Some p)) fromRow fromCol None in
     if isCastling m then
       (case rookCol m of
          None \<Rightarrow> setAt b1 toRow (if toCol = 6 then 5 else 3) None
        | Some rc \<Rightarrow>
            setAt (setAt b1 toRow (if toCol = 6 then 5 else 3) (boardAt b1 toRow rc)) toRow rc None)
     else if pkind p = Pawn \<and> toRow = (if isUpper p then 0 else 7)
     then setAt b1 toRow toCol (Some (Piece (pcolor p) Queen))
     else b1)"
  using p
  by (cases p; cases "pcolor p"; cases "pkind p")
     (simp_all add: movePiece_def Let_def isUpper_def split: option.splits)

subsection \<open>The committed board against the simulated one\<close>

text \<open>
  \<open>wouldBeInCheck\<close> tests the board with the piece moved and nothing else. \<open>movePiece\<close>
  commits that board, or that board with the pawn replaced by a queen, or, for castling,
  that board with the rook moved from its corner to the square next to the king. In each
  case a check on the committed board is a check on the simulated one.
\<close>

lemma castling_mem:
  assumes "m \<in> set (getCastlingMoves g r c isWhite)"
  shows "isCastling m \<and> row m = (if isWhite then 7 else 0) \<and>
    ((col m = 6 \<and> rookCol m = Some 7 \<and>
      boardAt (board g) (if isWhite then 7 else 0) 5 = None \<and>
      boardAt (board g) (if isWhite then 7 else 0) 6 = None) \<or>
     (col m = 2 \<and> rookCol m = Some 0 \<and>
      boardAt (board g) (if isWhite then 7 else 0) 2 = None \<and>
      boardAt (board g) (if isWhite then 7 else 0) 3 = None))"
  using assms unfolding getCastlingMoves_def Let_def
  by (auto split: if_splits)

lemma castle_safe:
  assumes wf: "wf_board b" and inb: "isInBounds r c"
    and king: "boardAt b r c = Some p" "pkind p = King"
    and br: "br = 0 \<or> br = 7"
    and cols: "(e = 7 \<and> f = 5 \<and> tc = 6) \<or> (e = 0 \<and> f = 3 \<and> tc = 2)"
    and rook: "boardAt b br e = Some rk" "pkind rk = Rook" "isUpper rk = isUpper p"
    and empties: "boardAt b br f = None" "boardAt b br tc = None"
    and safe: "\<not> isKingInCheck (setAt (setAt b br tc (Some p)) r c None) (isUpper p)"
  shows "\<not> isKingInCheck
    (setAt (setAt (setAt (setAt b br tc (Some p)) r c None) br f
       (boardAt (setAt (setAt b br tc (Some p)) r c None) br e)) br e None) (isUpper p)"
proof -
  define sim where "sim = setAt (setAt b br tc (Some p)) r c None"
  define after where "after = setAt (setAt sim br f (boardAt sim br e)) br e None"
  from br cols have ib: "isInBounds br tc" "isInBounds br e" "isInBounds br f"
    by (auto simp: isInBounds_def)
  have wf1: "wf_board (setAt b br tc (Some p))" and wfs: "wf_board sim"
    unfolding sim_def by (intro wf_setAt wf)+
  have S: "boardAt sim x y =
      (if x = r \<and> y = c then None else if x = br \<and> y = tc then Some p else boardAt b x y)"
    for x y
    unfolding sim_def by (simp add: boardAt_setAt [OF wf1 inb] boardAt_setAt [OF wf ib(1)])
  from king rook have ne: "\<not> (br = r \<and> e = c)"
    by auto
  from cols have ne2: "e \<noteq> tc" "f \<noteq> tc" "e \<noteq> f"
    by auto
  have rk: "boardAt sim br e = Some rk"
    using ne ne2 rook by (simp add: S)
  have wf2: "wf_board (setAt sim br f (Some rk))"
    by (intro wf_setAt wfs)
  have A: "boardAt after x y =
      (if x = br \<and> y = e then None else if x = br \<and> y = f then Some rk else boardAt sim x y)"
    for x y
    unfolding after_def rk by (simp add: boardAt_setAt [OF wf2 ib(2)] boardAt_setAt [OF wfs ib(3)])
  have nk: "rk \<noteq> kingOf (isUpper p)"
    using rook(2) by (auto simp: kingOf_def)
  have "isKingInCheck sim (isUpper p)" if chk: "isKingInCheck after (isUpper p)"
  proof (rule check_transfer [OF chk, where er = br and ec = e])
    show "br \<in> {0, 7}" "e \<in> {0, 7}"
      using br cols by auto
  next
    fix x y
    show "(boardAt after x y = Some (kingOf (isUpper p))) =
          (boardAt sim x y = Some (kingOf (isUpper p)))"
      using nk rk empties ne2 by (auto simp: A S)
  next
    fix x y q
    assume "boardAt after x y = Some q" "isUpper q \<noteq> isUpper p"
    then show "boardAt sim x y = Some q"
      using rook(3) by (auto simp: A split: if_splits)
  next
    fix x y
    assume "(x, y) \<noteq> (br, e)" "boardAt after x y = None"
    then show "boardAt sim x y = None"
      by (auto simp: A split: if_splits)
  qed
  with safe show ?thesis
    unfolding sim_def [symmetric] after_def [symmetric] by blast
qed

lemma promotion_safe:
  assumes wf: "wf_board sim" and tb: "isInBounds tr tc"
    and pawn: "boardAt sim tr tc = Some p" "pkind p = Pawn"
    and safe: "\<not> isKingInCheck sim (isUpper p)"
  shows "\<not> isKingInCheck (setAt sim tr tc (Some (Piece (pcolor p) Queen))) (isUpper p)"
proof -
  define after where "after = setAt sim tr tc (Some (Piece (pcolor p) Queen))"
  have A: "boardAt after x y =
      (if x = tr \<and> y = tc then Some (Piece (pcolor p) Queen) else boardAt sim x y)" for x y
    unfolding after_def by (simp add: boardAt_setAt [OF wf tb])
  have "isKingInCheck sim (isUpper p)" if chk: "isKingInCheck after (isUpper p)"
  proof (rule check_transfer [OF chk, where er = 0 and ec = 0])
    show "(0::int) \<in> {0, 7}" "(0::int) \<in> {0, 7}"
      by simp_all
  next
    fix x y
    show "(boardAt after x y = Some (kingOf (isUpper p))) =
          (boardAt sim x y = Some (kingOf (isUpper p)))"
      using pawn by (auto simp: A kingOf_def)
  next
    fix x y q
    assume "boardAt after x y = Some q" "isUpper q \<noteq> isUpper p"
    then show "boardAt sim x y = Some q"
      by (auto simp: A isUpper_def split: if_splits)
  next
    fix x y
    assume "boardAt after x y = None"
    then show "boardAt sim x y = None"
      by (auto simp: A split: if_splits)
  qed
  with safe show ?thesis
    unfolding after_def [symmetric] by blast
qed

lemma legal_move_safe:
  assumes wf: "wf_board (board g)" and inb: "isInBounds r c"
    and p: "boardAt (board g) r c = Some p"
    and m: "m \<in> set (getValidMoves g r c)"
  shows "\<not> isKingInCheck (board (movePiece g r c (row m) (col m) m)) (isUpper p)"
proof -
  let ?b = "board g"
  let ?sim = "setAt (setAt ?b (row m) (col m) (Some p)) r c None"
  from getValidMoves_mem [OF m p]
  have safe: "\<not> isKingInCheck ?sim (isUpper p)"
    and gen: "m \<in> set (getValidMovesWithoutCheckValidation ?b r c) \<or>
          pkind p = King \<and> m \<in> set (getCastlingMoves g r c (isUpper p))"
    using p by (simp_all add: wouldBeInCheck_def)
  from gen show ?thesis
  proof
    assume ps: "m \<in> set (getValidMovesWithoutCheckValidation ?b r c)"
    from pseudo_props [OF ps p inb]
    have mm: "m = mv (row m) (col m)" and tb: "isInBounds (row m) (col m)"
      and ne: "(row m, col m) \<noteq> (r, c)"
      by simp_all
    have nc: "\<not> isCastling m"
      by (subst mm) simp
    have wf1: "wf_board (setAt ?b (row m) (col m) (Some p))" and wfs: "wf_board ?sim"
      by (intro wf_setAt wf)+
    have at: "boardAt ?sim (row m) (col m) = Some p"
      using ne by (auto simp: boardAt_setAt [OF wf1 inb] boardAt_setAt [OF wf tb])
    show ?thesis
    proof (cases "pkind p = Pawn \<and> row m = (if isUpper p then 0 else 7)")
      case True
      with promotion_safe [OF wfs tb at _ safe] nc show ?thesis
        by (simp add: board_movePiece [OF p] Let_def)
    next
      case False
      with safe nc show ?thesis
        by (auto simp: board_movePiece [OF p] Let_def split: if_splits)
    qed
  next
    assume "pkind p = King \<and> m \<in> set (getCastlingMoves g r c (isUpper p))"
    then have k: "pkind p = King" and cm: "m \<in> set (getCastlingMoves g r c (isUpper p))"
      by simp_all
    let ?br = "if isUpper p then 7 else 0 :: int"
    have br: "?br = 0 \<or> ?br = 7"
      by simp
    from castling_corner_rook [OF cm]
    have rook: "boardAt ?b ?br (if col m = 6 then 7 else 0) =
        Some (Piece (if isUpper p then White else Black) Rook)"
      by simp
    have rk: "pkind (Piece (if isUpper p then White else Black) Rook) = Rook"
      "isUpper (Piece (if isUpper p then White else Black) Rook) = isUpper p"
      by (simp_all add: isUpper_def)
    from castling_mem [OF cm] have c: "isCastling m" and rw: "row m = ?br"
      and side: "(col m = 6 \<and> rookCol m = Some 7 \<and> boardAt ?b ?br 5 = None \<and>
                  boardAt ?b ?br 6 = None) \<or>
                 (col m = 2 \<and> rookCol m = Some 0 \<and> boardAt ?b ?br 2 = None \<and>
                  boardAt ?b ?br 3 = None)"
      by simp_all
    from side show ?thesis
    proof
      assume s: "col m = 6 \<and> rookCol m = Some 7 \<and> boardAt ?b ?br 5 = None \<and>
                  boardAt ?b ?br 6 = None"
      with rook have r7: "boardAt ?b ?br 7 = Some (Piece (if isUpper p then White else Black) Rook)"
        by simp
      from s safe rw have sf: "\<not> isKingInCheck (setAt (setAt ?b ?br 6 (Some p)) r c None) (isUpper p)"
        by simp
      from castle_safe [OF wf inb p k br _ r7 rk _ _ sf, of 5] s
      show ?thesis
        unfolding board_movePiece [OF p] Let_def using c s rw by simp
    next
      assume s: "col m = 2 \<and> rookCol m = Some 0 \<and> boardAt ?b ?br 2 = None \<and>
                  boardAt ?b ?br 3 = None"
      with rook have r0: "boardAt ?b ?br 0 = Some (Piece (if isUpper p then White else Black) Rook)"
        by simp
      from s safe rw have sf: "\<not> isKingInCheck (setAt (setAt ?b ?br 2 (Some p)) r c None) (isUpper p)"
        by simp
      from castle_safe [OF wf inb p k br _ r0 rk _ _ sf, of 3] s
      show ?thesis
        unfolding board_movePiece [OF p] Let_def using c s rw by simp
    qed
  qed
qed

section \<open>Legal moves and the mover's king\<close>

lemma wf_movePiece:
  "wf_board (board g) \<Longrightarrow> wf_board (board (movePiece g fromRow fromCol toRow toCol m))"
proof (cases "boardAt (board g) fromRow fromCol")
  case None
  then show "wf_board (board g) \<Longrightarrow> ?thesis"
    by (simp add: movePiece_def)
next
  case (Some p)
  show "wf_board (board g) \<Longrightarrow> ?thesis"
    unfolding board_movePiece [OF Some] Let_def
    by (auto intro!: wf_setAt split: option.splits)
qed

lemma board_checkGameStatus: "board (checkGameStatus g) = board g"
  by (simp add: checkGameStatus_def endGame_def Let_def)

lemma board_switchTurn: "board (switchTurn g) = board g"
  by (simp add: switchTurn_def board_checkGameStatus)

lemma board_handleSquareClick:
  "board (handleSquareClick g r c) = board g \<or>
   (\<exists>sr sc m. selectedSquare g = Some (sr, sc) \<and> m \<in> set (validMoves g) \<and>
      row m = r \<and> col m = c \<and> \<not> gameOver g \<and>
      handleSquareClick g r c = switchTurn (clearSelection (movePiece g sr sc r c m)))"
proof (cases "gameOver g")
  case True
  then show ?thesis by (simp add: handleSquareClick_def)
next
  case False
  show ?thesis
  proof (cases "selectedSquare g")
    case None
    with False show ?thesis
      by (simp add: handleSquareClick_def selectSquare_def)
  next
    case (Some s)
    obtain sr sc where s: "s = (sr, sc)" by (cases s)
    show ?thesis
    proof (cases "find (\<lambda>m. row m = r \<and> col m = c) (validMoves g)")
      case None
      with False Some s show ?thesis
        by (simp add: handleSquareClick_def selectSquare_def clearSelection_def)
    next
      case (Some m)
      from find_Some_holds [OF this] False \<open>selectedSquare g = Some s\<close> s Some show ?thesis
        by (auto simp: handleSquareClick_def)
    qed
  qed
qed

lemma reachable_wf: "reachable g \<Longrightarrow> wf_board (board g)"
proof (induction rule: reachable.induct)
  case start
  show ?case by (simp add: newGame_def wf_INITIAL_BOARD)
next
  case (click g r c)
  from board_handleSquareClick [of g r c] click.IH show ?case
    by (auto simp: board_switchTurn clearSelection_def intro: wf_movePiece)
qed

lemma reachable_clicks:
  "reachable g \<Longrightarrow> list_all (\<lambda>(r, c). isInBounds r c) cs \<Longrightarrow> reachable (clicks g cs)"
  by (induction g cs rule: clicks.induct) (auto intro: reachable.click)

lemma reachable_pawnPosition: "reachable pawnPosition"
proof -
  have "list_all (\<lambda>(r, c). isInBounds r c) pawnGame"
    by code_simp
  from reachable_clicks [OF reachable.start this] show ?thesis
    by (simp add: clicks_pawnGame)
qed

text \<open>
  Claim C1. In every reachable position, for the piece on any square, no move that
  \<open>getValidMoves\<close> returns leaves the king of that piece's colour attacked once
  \<open>movePiece\<close> has committed it, the promotion and the rook's relocation included. (The
  proof needs of the position only that the board is eight by eight.)
\<close>

theorem legal_moves_keep_own_king_safe:
  assumes "reachable g" and "isInBounds r c" and "boardAt (board g) r c = Some p"
    and "m \<in> set (getValidMoves g r c)"
  shows "\<not> isKingInCheck (board (movePiece g r c (row m) (col m) m)) (isUpper p)"
  using assms by (intro legal_move_safe reachable_wf)

theorem legal_moves_keep_own_king_safe_witness:
  "castleKingside 7 \<in> set (getValidMoves pawnPosition 7 4) \<and>
   \<not> isKingInCheck (board (movePiece pawnPosition 7 4 7 6 (castleKingside 7))) True"
proof -
  have a: "isInBounds 7 4" "boardAt (board pawnPosition) 7 4 = Some (Piece White King)"
    "castleKingside 7 \<in> set (getValidMoves pawnPosition 7 4)"
    by code_simp+
  from legal_moves_keep_own_king_safe [OF reachable_pawnPosition a] a(3) show ?thesis
    by (simp add: isUpper_def castleKingside_def)
qed

section \<open>One king of each colour\<close>

text \<open>
  A committed move keeps the number of kings: it lands on no king (the opponent's king is
  not attacked when the mover is to move, and no move lands on a piece of the mover's own
  colour), a promoted piece was a pawn, and castling writes a king and a rook onto empty
  squares while clearing the squares they came from.
\<close>

lemma oneKing_length:
  assumes "oneKing b isWhite"
  shows "length (kingSquares b isWhite) = 1"
proof -
  from assms obtain kr kc where kb: "isInBounds kr kc"
    and ku: "\<And>r c. isInBounds r c \<Longrightarrow> (boardAt b r c = Some (kingOf isWhite)) = (r = kr \<and> c = kc)"
    unfolding oneKing_def by blast
  have "{x. case x of (r, c) \<Rightarrow> boardAt b r c = Some (kingOf isWhite)} \<inter> set allSquares = {(kr, kc)}"
    using kb ku by (auto simp: allSquares_iff)
  then show ?thesis
    unfolding kingSquares_def by (simp add: distinct_length_filter [OF distinct_allSquares])
qed

lemma kings_after_ordinary:
  assumes B: "\<And>x y. boardAt b2 x y =
      (if x = r \<and> y = c then None else if x = tr \<and> y = tc then Some p' else boardAt b x y)"
    and inb: "isInBounds r c" and tb: "isInBounds tr tc" and ne: "(tr, tc) \<noteq> (r, c)"
    and p: "boardAt b r c = Some p"
    and p': "p' = p \<or> (pkind p = Pawn \<and> p' = Piece (pcolor p) Queen)"
    and nk: "boardAt b tr tc \<noteq> Some (kingOf w)"
    and one: "oneKing b w"
  shows "oneKing b2 w"
proof -
  from one obtain kr kc where kb: "isInBounds kr kc"
    and ku: "\<And>x y. isInBounds x y \<Longrightarrow> (boardAt b x y = Some (kingOf w)) = (x = kr \<and> y = kc)"
    unfolding oneKing_def by blast
  show ?thesis
  proof (cases "p = kingOf w")
    case True
    with ku [OF inb] p have k: "kr = r" "kc = c"
      by simp_all
    from True p' have pp: "p' = kingOf w"
      by (auto simp: kingOf_def)
    show ?thesis
      unfolding oneKing_def
    proof (intro exI conjI allI impI)
      show "isInBounds tr tc" by fact
    next
      fix x y assume "isInBounds x y"
      with ku [of x y] k ne pp show "(boardAt b2 x y = Some (kingOf w)) = (x = tr \<and> y = tc)"
        by (auto simp: B)
    qed
  next
    case False
    with p' have pp: "p' \<noteq> kingOf w"
      by (auto simp: kingOf_def)
    from ku [OF inb] p False have n1: "\<not> (kr = r \<and> kc = c)"
      by auto
    from ku [OF tb] nk have n2: "\<not> (kr = tr \<and> kc = tc)"
      by auto
    show ?thesis
      unfolding oneKing_def
    proof (intro exI conjI allI impI)
      show "isInBounds kr kc" by fact
    next
      fix x y assume "isInBounds x y"
      with ku [of x y] n1 n2 pp show "(boardAt b2 x y = Some (kingOf w)) = (x = kr \<and> y = kc)"
        by (auto simp: B)
    qed
  qed
qed

lemma kings_after_castle:
  assumes B: "\<And>x y. boardAt b2 x y =
      (if x = br \<and> y = e then None else if x = br \<and> y = f then Some rk
       else if x = r \<and> y = c then None else if x = br \<and> y = tc then Some p
       else boardAt b x y)"
    and inb: "isInBounds r c" and ib: "isInBounds br tc" "isInBounds br e" "isInBounds br f"
    and cols: "e \<noteq> tc" "f \<noteq> tc"
    and p: "boardAt b r c = Some p" "pkind p = King"
    and rook: "boardAt b br e = Some rk" "pkind rk = Rook"
    and empties: "boardAt b br f = None" "boardAt b br tc = None"
    and one: "oneKing b w"
  shows "oneKing b2 w"
proof -
  from one obtain kr kc where kb: "isInBounds kr kc"
    and ku: "\<And>x y. isInBounds x y \<Longrightarrow> (boardAt b x y = Some (kingOf w)) = (x = kr \<and> y = kc)"
    unfolding oneKing_def by blast
  from rook have rk: "rk \<noteq> kingOf w"
    by (auto simp: kingOf_def)
  from p empties have nt: "\<not> (r = br \<and> c = tc)"
    by auto
  from ku [OF ib(2)] rook rk have n1: "\<not> (kr = br \<and> kc = e)"
    by auto
  from ku [OF ib(3)] empties have n2: "\<not> (kr = br \<and> kc = f)"
    by auto
  from ku [OF ib(1)] empties have n3: "\<not> (kr = br \<and> kc = tc)"
    by auto
  show ?thesis
  proof (cases "p = kingOf w")
    case True
    with ku [OF inb] p have k: "kr = r" "kc = c"
      by simp_all
    show ?thesis
      unfolding oneKing_def
    proof (intro exI conjI allI impI)
      show "isInBounds br tc" by fact
    next
      fix x y assume "isInBounds x y"
      with ku [of x y] k True rk cols nt show "(boardAt b2 x y = Some (kingOf w)) = (x = br \<and> y = tc)"
        by (auto simp: B)
    qed
  next
    case False
    from ku [OF inb] p False have n4: "\<not> (kr = r \<and> kc = c)"
      by auto
    show ?thesis
      unfolding oneKing_def
    proof (intro exI conjI allI impI)
      show "isInBounds kr kc" by fact
    next
      fix x y assume "isInBounds x y"
      with ku [of x y] False rk n1 n2 n3 n4
      show "(boardAt b2 x y = Some (kingOf w)) = (x = kr \<and> y = kc)"
        by (auto simp: B)
    qed
  qed
qed

lemma sim_board:
  assumes wf: "wf_board b" and inb: "isInBounds r c" and tb: "isInBounds tr tc"
  shows "boardAt (setAt (setAt b tr tc v) r c None) x y =
    (if x = r \<and> y = c then None else if x = tr \<and> y = tc then v else boardAt b x y)"
proof -
  have wf1: "wf_board (setAt b tr tc v)"
    by (intro wf_setAt wf)
  show ?thesis
    by (simp add: boardAt_setAt [OF wf1 inb] boardAt_setAt [OF wf tb])
qed

lemma no_king_capture:
  assumes ps: "m \<in> set (getValidMovesWithoutCheckValidation b r c)"
    and p: "boardAt b r c = Some p" and inb: "isInBounds r c"
    and one: "oneKing b (\<not> isUpper p)"
    and nochk: "\<not> isKingInCheck b (\<not> isUpper p)"
  shows "boardAt b (row m) (col m) \<noteq> Some (kingOf (\<not> isUpper p))"
proof
  assume k: "boardAt b (row m) (col m) = Some (kingOf (\<not> isUpper p))"
  from pseudo_props [OF ps p inb] have tb: "isInBounds (row m) (col m)"
    by simp
  from one obtain kr kc where
    ku: "\<And>x y. isInBounds x y \<Longrightarrow> (boardAt b x y = Some (kingOf (\<not> isUpper p))) = (x = kr \<and> y = kc)"
    unfolding oneKing_def by blast
  from ku [OF tb] k have t: "row m = kr" "col m = kc"
    by simp_all
  from tb k have "findKing b (\<not> isUpper p) \<noteq> None"
    unfolding findKing_None by blast
  then obtain fr fc where f: "findKing b (\<not> isUpper p) = Some (fr, fc)"
    by (cases "findKing b (\<not> isUpper p)") auto
  from findKing_Some [OF f] ku [of fr fc] have "fr = kr" "fc = kc"
    by simp_all
  with f t ps p inb have "isKingInCheck b (\<not> isUpper p)"
    unfolding isKingInCheck_iff by blast
  with nochk show False ..
qed

lemma own_king_not_target:
  assumes ps: "m \<in> set (getValidMovesWithoutCheckValidation b r c)"
    and p: "boardAt b r c = Some p" and inb: "isInBounds r c"
  shows "boardAt b (row m) (col m) \<noteq> Some (kingOf (isUpper p))"
proof -
  from pseudo_props [OF ps p inb]
  have "boardAt b (row m) (col m) = None \<or> isOpponentPiece b (row m) (col m) (isUpper p)"
    by simp
  then show ?thesis
    by (cases "isUpper p") (auto simp: isOpponentPiece_def kingOf_def isUpper_def isLower_def)
qed

lemma move_keeps_kings:
  assumes wf: "wf_board (board g)" and inb: "isInBounds r c"
    and p: "boardAt (board g) r c = Some p"
    and m: "m \<in> set (getValidMoves g r c)"
    and one: "oneKing (board g) w" and opp: "oneKing (board g) (\<not> isUpper p)"
    and nochk: "\<not> isKingInCheck (board g) (\<not> isUpper p)"
  shows "oneKing (board (movePiece g r c (row m) (col m) m)) w"
proof -
  let ?b = "board g"
  let ?sim = "setAt (setAt ?b (row m) (col m) (Some p)) r c None"
  from getValidMoves_mem [OF m p]
  have gen: "m \<in> set (getValidMovesWithoutCheckValidation ?b r c) \<or>
          pkind p = King \<and> m \<in> set (getCastlingMoves g r c (isUpper p))"
    by simp
  from gen show ?thesis
  proof
    assume ps: "m \<in> set (getValidMovesWithoutCheckValidation ?b r c)"
    from pseudo_props [OF ps p inb]
    have mm: "m = mv (row m) (col m)" and tb: "isInBounds (row m) (col m)"
      and ne: "(row m, col m) \<noteq> (r, c)"
      by simp_all
    have nc: "\<not> isCastling m"
      by (subst mm) simp
    have nk: "boardAt ?b (row m) (col m) \<noteq> Some (kingOf w)"
      using no_king_capture [OF ps p inb opp nochk] own_king_not_target [OF ps p inb]
      by (cases "w = isUpper p") auto
    have wfs: "wf_board ?sim"
      by (intro wf_setAt wf)
    define p' where "p' = (if pkind p = Pawn \<and> row m = (if isUpper p then 0 else 7)
      then Piece (pcolor p) Queen else p)"
    have bd: "board (movePiece g r c (row m) (col m) m) =
        (if p' = p then ?sim else setAt ?sim (row m) (col m) (Some p'))"
      using nc by (cases p) (auto simp: board_movePiece [OF p] Let_def p'_def)
    have B: "boardAt (board (movePiece g r c (row m) (col m) m)) x y =
      (if x = r \<and> y = c then None else if x = row m \<and> y = col m then Some p'
       else boardAt ?b x y)" for x y
      using ne unfolding bd
      by (auto simp: boardAt_setAt [OF wfs tb] sim_board [OF wf inb tb])
    have pp: "p' = p \<or> (pkind p = Pawn \<and> p' = Piece (pcolor p) Queen)"
      by (simp add: p'_def)
    from kings_after_ordinary [OF B inb tb ne p pp nk one] show ?thesis .
  next
    assume "pkind p = King \<and> m \<in> set (getCastlingMoves g r c (isUpper p))"
    then have k: "pkind p = King" and cm: "m \<in> set (getCastlingMoves g r c (isUpper p))"
      by simp_all
    define br :: int where "br = (if isUpper p then 7 else 0)"
    define rk where "rk = Piece (if isUpper p then White else Black) Rook"
    from castling_corner_rook [OF cm]
    have rook: "boardAt ?b br (if col m = 6 then 7 else 0) = Some rk"
      by (simp add: rk_def br_def)
    have rkk: "pkind rk = Rook"
      by (simp add: rk_def)
    from castling_mem [OF cm] have c: "isCastling m" and rw: "row m = br"
      and side: "(col m = 6 \<and> rookCol m = Some 7 \<and> boardAt ?b br 5 = None \<and>
                  boardAt ?b br 6 = None) \<or>
                 (col m = 2 \<and> rookCol m = Some 0 \<and> boardAt ?b br 2 = None \<and>
                  boardAt ?b br 3 = None)"
      by (simp_all add: br_def)
    have brb: "br = 0 \<or> br = 7"
      by (simp add: br_def)
    define e f :: int where "e = (if col m = 6 then 7 else 0)" and "f = (if col m = 6 then 5 else 3)"
    from side brb have ef: "rookCol m = Some e" "e \<noteq> col m" "f \<noteq> col m" "e \<noteq> f"
      and em: "boardAt ?b br f = None" "boardAt ?b br (col m) = None"
      and ib: "isInBounds br (col m)" "isInBounds br e" "isInBounds br f"
      by (auto simp: e_def f_def isInBounds_def)
    from rook have rook': "boardAt ?b br e = Some rk"
      by (simp add: e_def)
    from p k rook' rkk have ne: "\<not> (br = r \<and> e = c)"
      by auto
    let ?sim' = "setAt (setAt ?b br (col m) (Some p)) r c None"
    have wfs: "wf_board ?sim'" and wf2: "wf_board (setAt ?sim' br f (Some rk))"
      by (intro wf_setAt wf)+
    have S: "boardAt ?sim' x y =
      (if x = r \<and> y = c then None else if x = br \<and> y = col m then Some p else boardAt ?b x y)"
      for x y
      by (rule sim_board [OF wf inb ib(1)])
    have rs: "boardAt ?sim' br e = Some rk"
      using ne ef rook' by (simp add: S)
    have rt: "(if col m = 6 then 5 else 3) = f"
      by (simp add: f_def)
    have bd: "board (movePiece g r c (row m) (col m) m) =
        setAt (setAt ?sim' br f (Some rk)) br e None"
      unfolding board_movePiece [OF p] Let_def rw rt using c ef(1) rs
      by simp
    have B: "boardAt (board (movePiece g r c (row m) (col m) m)) x y =
      (if x = br \<and> y = e then None else if x = br \<and> y = f then Some rk
       else if x = r \<and> y = c then None else if x = br \<and> y = col m then Some p
       else boardAt ?b x y)" for x y
      unfolding bd boardAt_setAt [OF wf2 ib(2)] boardAt_setAt [OF wfs ib(3)] S ..
    from kings_after_castle [OF B inb ib ef(2,3) p k rook' rkk em one] show ?thesis .
  qed
qed

text \<open>The invariant holds at the start and after every click.\<close>

lemma currentTurn_movePiece:
  "currentTurn (movePiece g fromRow fromCol toRow toCol m) = currentTurn g"
  by (simp add: movePiece_def Let_def split: option.splits)

lemma fields_switchTurn:
  "currentTurn (switchTurn g) = (if currentTurn g = White then Black else White)"
  "selectedSquare (switchTurn g) = selectedSquare g"
  by (simp_all add: switchTurn_def checkGameStatus_def endGame_def Let_def)

lemma owned_piece:
  assumes "isPieceOwnedByCurrentPlayer g r c"
  obtains p where "boardAt (board g) r c = Some p" "isUpper p = (currentTurn g = White)"
proof (cases "boardAt (board g) r c")
  case None
  with assms show ?thesis by (simp add: isPieceOwnedByCurrentPlayer_def)
next
  case (Some p)
  with assms have "isUpper p = (currentTurn g = White)"
    by (cases "currentTurn g") (auto simp: isPieceOwnedByCurrentPlayer_def isLower_iff)
  with Some that show ?thesis by blast
qed

lemma gameInv_select:
  assumes inv: "gameInv g" and inb: "isInBounds r c"
    and own: "isPieceOwnedByCurrentPlayer g r c"
  shows "gameInv (selectSquare g r c)"
proof -
  let ?g = "selectSquare g r c"
  have f: "board ?g = board g" "currentTurn ?g = currentTurn g" "hasMoved ?g = hasMoved g"
    "selectedSquare ?g = Some (r, c)" "validMoves ?g = getValidMoves g r c"
    by (simp_all add: selectSquare_def)
  have "getValidMoves ?g r c = getValidMoves g r c"
    by (rule getValidMoves_cong) (simp_all add: f)
  moreover have "isPieceOwnedByCurrentPlayer ?g r c"
    using own owned_cong [of ?g g r c] by (simp add: f)
  ultimately show ?thesis
    using inv inb unfolding gameInv_def f by simp
qed

lemma gameInv_clear: "gameInv g \<Longrightarrow> gameInv (clearSelection g)"
  by (simp add: gameInv_def clearSelection_def)

lemma gameInv_move:
  assumes inv: "gameInv g" and sel: "selectedSquare g = Some (sr, sc)"
    and m: "m \<in> set (validMoves g)"
  shows "gameInv (switchTurn (clearSelection (movePiece g sr sc (row m) (col m) m)))"
proof -
  let ?g1 = "movePiece g sr sc (row m) (col m) m"
  let ?g' = "switchTurn (clearSelection ?g1)"
  from inv sel have wf: "wf_board (board g)" and k: "oneKing (board g) True" "oneKing (board g) False"
    and nochk: "\<not> isKingInCheck (board g) (currentTurn g \<noteq> White)"
    and inb: "isInBounds sr sc" and own: "isPieceOwnedByCurrentPlayer g sr sc"
    and vm: "validMoves g = getValidMoves g sr sc"
    by (simp_all add: gameInv_def)
  from own obtain p where p: "boardAt (board g) sr sc = Some p"
    and up: "isUpper p = (currentTurn g = White)"
    by (rule owned_piece)
  from m vm have mm: "m \<in> set (getValidMoves g sr sc)"
    by simp
  from k have opp: "oneKing (board g) (\<not> isUpper p)"
    by (cases "isUpper p") simp_all
  from nochk up have nc: "\<not> isKingInCheck (board g) (\<not> isUpper p)"
    by simp
  have f: "board ?g' = board ?g1" "selectedSquare ?g' = None"
    "(currentTurn ?g' \<noteq> White) = isUpper p"
    using up
    by (auto simp: board_switchTurn fields_switchTurn clearSelection_def currentTurn_movePiece)
  have "wf_board (board ?g1)"
    by (rule wf_movePiece [OF wf])
  moreover have "oneKing (board ?g1) True" "oneKing (board ?g1) False"
    by (rule move_keeps_kings [OF wf inb p mm _ opp nc], rule k)+
  moreover have "\<not> isKingInCheck (board ?g1) (isUpper p)"
    by (rule legal_move_safe [OF wf inb p mm])
  ultimately show ?thesis
    unfolding gameInv_def f by simp
qed

lemma gameInv_click:
  assumes inv: "gameInv g" and inb: "isInBounds r c"
  shows "gameInv (handleSquareClick g r c)"
proof (cases "gameOver g")
  case True
  with inv show ?thesis by (simp add: handleSquareClick_def)
next
  case False
  show ?thesis
  proof (cases "selectedSquare g")
    case None
    with False inv inb show ?thesis
      by (simp add: handleSquareClick_def gameInv_select)
  next
    case (Some s)
    obtain sr sc where s: "s = (sr, sc)" by (cases s)
    show ?thesis
    proof (cases "find (\<lambda>m. row m = r \<and> col m = c) (validMoves g)")
      case None
      with False Some s inv inb show ?thesis
        by (simp add: handleSquareClick_def gameInv_select gameInv_clear)
    next
      case found: (Some m)
      from find_Some_holds [OF found] have m: "m \<in> set (validMoves g)"
        and rc: "row m = r" "col m = c"
        by simp_all
      from Some s have sel: "selectedSquare g = Some (sr, sc)"
        by simp
      from gameInv_move [OF inv sel m] False sel found rc show ?thesis
        by (simp add: handleSquareClick_def)
    qed
  qed
qed

lemma oneKing_newGame: "oneKing (board newGame) True" "oneKing (board newGame) False"
proof -
  have "list_all (\<lambda>(r, c). (boardAt (board newGame) r c = Some (kingOf True)) = (r = 7 \<and> c = 4))
          allSquares"
    "list_all (\<lambda>(r, c). (boardAt (board newGame) r c = Some (kingOf False)) = (r = 0 \<and> c = 4))
          allSquares"
    by code_simp+
  then have "\<And>r c. isInBounds r c \<Longrightarrow>
        (boardAt (board newGame) r c = Some (kingOf True)) = (r = 7 \<and> c = 4)"
    "\<And>r c. isInBounds r c \<Longrightarrow>
        (boardAt (board newGame) r c = Some (kingOf False)) = (r = 0 \<and> c = 4)"
    unfolding list_all_iff allSquares_iff [symmetric] by blast+
  moreover have "isInBounds 7 4" "isInBounds 0 4"
    by (simp_all add: isInBounds_def)
  ultimately show "oneKing (board newGame) True" "oneKing (board newGame) False"
    unfolding oneKing_def by blast+
qed

lemma gameInv_newGame: "gameInv newGame"
proof -
  have "\<not> isKingInCheck (board newGame) (currentTurn newGame \<noteq> White)"
    "selectedSquare newGame = None" "board newGame = INITIAL_BOARD"
    by code_simp+
  with oneKing_newGame wf_INITIAL_BOARD show ?thesis
    by (simp add: gameInv_def)
qed

lemma reachable_gameInv: "reachable g \<Longrightarrow> gameInv g"
  by (induction rule: reachable.induct) (simp_all add: gameInv_newGame gameInv_click)

text \<open>
  Claim C5. In every state reached from the initial position by clicks, which commit no
  move but one that \<open>getValidMoves\<close> returned for a piece of the side to move, the board
  holds exactly one white king and exactly one black king.
\<close>

theorem reachable_one_king_each:
  "reachable g \<Longrightarrow>
   length (kingSquares (board g) True) = 1 \<and> length (kingSquares (board g) False) = 1"
  using reachable_gameInv [of g] by (simp add: gameInv_def oneKing_length)

theorem reachable_one_king_each_witness:
  "kingSquares (board pawnPosition) True = [(7, 4)] \<and>
   kingSquares (board pawnPosition) False = [(0, 4)] \<and>
   length (kingSquares (board pawnPosition) True) = 1 \<and>
   length (kingSquares (board pawnPosition) False) = 1"
proof -
  have "kingSquares (board pawnPosition) True = [(7, 4)]"
    "kingSquares (board pawnPosition) False = [(0, 4)]"
    by code_simp+
  with reachable_one_king_each [OF reachable_pawnPosition] show ?thesis
    by simp
qed

end
